theory Spec2Isabelle
  imports Main "HOL-Library.Word"
begin

unbundle bit_operations_syntax

section \<open>Bytes, buffers and numbers\<close>

text \<open>
  A \<^verbatim>\<open>Buffer\<close> is a list of bytes. A store into a buffer keeps the low eight bits of
  the number stored (\<open>of_nat\<close> into \<open>8 word\<close>), and a store outside the buffer is ignored,
  which is what \<open>list_update\<close> does. The numbers of the source are JavaScript numbers: the
  model uses naturals for them (exact below \<open>2 ^ 53\<close>) and keeps the one special value that
  the parser can produce, \<open>NaN\<close>, which arises when a byte is read outside a buffer
  (\<^verbatim>\<open>res += undefined\<close>).
\<close>

type_synonym byte = "8 word"
type_synonym Buffer = "byte list"

datatype number = NaN | Num nat

text \<open>\<^verbatim>\<open>a < b\<close> for a length \<open>a\<close>: every comparison with \<open>NaN\<close> is false.\<close>

fun less_number :: "nat \<Rightarrow> number \<Rightarrow> bool" where
  "less_number a NaN = False"
| "less_number a (Num b) = (a < b)"

text \<open>\<^verbatim>\<open>a * b\<close> with a number \<open>a\<close> and a byte width \<open>b\<close>.\<close>

fun times_number :: "number \<Rightarrow> nat \<Rightarrow> number" where
  "times_number NaN b = NaN"
| "times_number (Num a) b = Num (a * b)"

text \<open>
  The number of rounds of \<^verbatim>\<open>for (let c = 0; c < n; c++)\<close>, and the index that
  \<^verbatim>\<open>subarray\<close> makes of its argument: \<open>NaN\<close> counts as 0 in both.
\<close>

fun to_index :: "number \<Rightarrow> nat" where
  "to_index NaN = 0"
| "to_index (Num n) = n"

datatype error =
    NotEnoughBytesForMagicPrefix
  | UnknownMagicPrefix
  | NotEnoughBytesForCellsCounters
  | NotEnoughBytesForRootCellsHashes
  | NotEnoughBytesForIndexEncoding
  | NotEnoughBytesForCellsData
  | NotEnoughBytesForCrc32c
  | Crc32cHashsumMismatch
  | TooMuchBytes
  | NotEnoughBytesForCellDescriptors
  | NotEnoughBytesForCellData
  | InvalidCellType nat
  | RangeError
  | IncorrectTopUppedArray
  | TopologicalOrderIsBroken
  | TypeError

section \<open>Header codec: parseBocHeader\<close>

definition reachBocMagicPrefix :: Buffer where
  "reachBocMagicPrefix = [0xB5, 0xEE, 0x9C, 0x72]"

definition leanBocMagicPrefix :: Buffer where
  "leanBocMagicPrefix = [0x68, 0xFF, 0x65, 0xF3]"

definition leanBocMagicPrefixCRC :: Buffer where
  "leanBocMagicPrefixCRC = [0xAC, 0xC3, 0xA7, 0x28]"

text \<open>
  \<^verbatim>\<open>readNBytesUIntFromArray\<close>: the loop \<^verbatim>\<open>res *= 256; res += ui8array[c]\<close> for
  \<open>c < n\<close>. A byte outside the array is \<^verbatim>\<open>undefined\<close> and makes the result \<open>NaN\<close>,
  which the remaining rounds keep.
\<close>

fun readLoop :: "nat \<Rightarrow> Buffer \<Rightarrow> number \<Rightarrow> number" where
  "readLoop 0 bs res = res"
| "readLoop (Suc n) [] res = NaN"
| "readLoop (Suc n) (b # bs) NaN = NaN"
| "readLoop (Suc n) (b # bs) (Num r) = readLoop n bs (Num (r * 256 + unat b))"

definition readNBytesUIntFromArray :: "nat \<Rightarrow> Buffer \<Rightarrow> number" where
  "readNBytesUIntFromArray n ui8array = readLoop n ui8array (Num 0)"

text \<open>
  The loops \<^verbatim>\<open>for (c = 0; c < count; c++) { push(read(width, buf)); buf = buf.subarray(width) }\<close>
  that read the root list and the index; they return the list read and the rest of the
  buffer.
\<close>

fun readList :: "nat \<Rightarrow> nat \<Rightarrow> Buffer \<Rightarrow> number list \<times> Buffer" where
  "readList 0 width buf = ([], buf)"
| "readList (Suc c) width buf =
     (let x = readNBytesUIntFromArray width buf;
          (xs, rest) = readList c width (drop width buf)
      in (x # xs, rest))"

record BocHeader =
  has_idx :: bool
  hash_crc32 :: bool
  has_cache_bits :: bool
  flags :: nat
  size_bytes :: nat
  off_bytes :: nat
  cells_num :: number
  roots_num :: number
  absent_num :: number
  tot_cells_size :: number
  root_list :: "number list"
  index :: "number list option"
  cells_data :: Buffer

text \<open>
  The first part of \<^verbatim>\<open>parseBocHeader\<close>: the magic prefix and the byte after it. The
  result is \<open>(has_idx, hash_crc32, has_cache_bits, flags, size_bytes)\<close>; the argument is the
  input after the preflight check, so it has at least five bytes.
\<close>

definition parsePrefix :: "Buffer \<Rightarrow> error + (bool \<times> bool \<times> bool \<times> nat \<times> nat)" where
  "parsePrefix inputData =
     (let prefix = take 4 inputData;
          serializedBoc = drop 4 inputData;
          flags_byte = hd serializedBoc
      in if prefix = reachBocMagicPrefix then
           Inr (flags_byte AND 128 \<noteq> 0,
                flags_byte AND 64 \<noteq> 0,
                flags_byte AND 32 \<noteq> 0,
                unat (flags_byte AND 16) * 2 + unat (flags_byte AND 8),
                unat flags_byte mod 8)
         else if prefix = leanBocMagicPrefix then
           Inr (True, False, False, 0, unat flags_byte)
         else if prefix = leanBocMagicPrefixCRC then
           Inr (True, True, False, 0, unat flags_byte)
         else Inl UnknownMagicPrefix)"

text \<open>
  \<^verbatim>\<open>parseBocHeader\<close> is one function in the source, written in sections (prefix,
  counters, roots, index, cells, CRC32), each of which checks the bytes left, reads, and
  rebinds \<^verbatim>\<open>serializedBoc\<close> to what follows. The model has one definition for each
  section, returning what the section reads and the rest of the buffer, and
  \<open>parseBocHeader\<close> runs them in the source's order.
\<close>

text \<open>Counters: \<open>(offset_bytes, cells_num, roots_num, absent_num, tot_cells_size, rest)\<close>.\<close>

definition parseCounters ::
  "nat \<Rightarrow> Buffer \<Rightarrow> error + (nat \<times> number \<times> number \<times> number \<times> number \<times> Buffer)" where
  "parseCounters size_bytes' b1 =
     (if length b1 < 1 + 5 * size_bytes' then Inl NotEnoughBytesForCellsCounters
      else
        let offset_bytes = unat (hd b1);
            b2 = drop 1 b1;
            cells_num' = readNBytesUIntFromArray size_bytes' b2;
            b3 = drop size_bytes' b2;
            roots_num' = readNBytesUIntFromArray size_bytes' b3;
            b4 = drop size_bytes' b3;
            absent_num' = readNBytesUIntFromArray size_bytes' b4;
            b5 = drop size_bytes' b4;
            tot_cells_size' = readNBytesUIntFromArray offset_bytes b5;
            b6 = drop offset_bytes b5
        in Inr (offset_bytes, cells_num', roots_num', absent_num', tot_cells_size', b6))"

definition parseRoots :: "number \<Rightarrow> nat \<Rightarrow> Buffer \<Rightarrow> error + (number list \<times> Buffer)" where
  "parseRoots roots_num' size_bytes' b =
     (if less_number (length b) (times_number roots_num' size_bytes')
      then Inl NotEnoughBytesForRootCellsHashes
      else Inr (readList (to_index roots_num') size_bytes' b))"

definition parseIndex ::
  "bool \<Rightarrow> number \<Rightarrow> nat \<Rightarrow> Buffer \<Rightarrow> error + (number list option \<times> Buffer)" where
  "parseIndex has_idx' cells_num' offset_bytes b =
     (if has_idx' then
        if less_number (length b) (times_number cells_num' offset_bytes)
        then Inl NotEnoughBytesForIndexEncoding
        else (let (ix, rest) = readList (to_index cells_num') offset_bytes b
              in Inr (Some ix, rest))
      else Inr (None, b))"

definition parseCellsData :: "number \<Rightarrow> Buffer \<Rightarrow> error + (Buffer \<times> Buffer)" where
  "parseCellsData tot_cells_size' b =
     (if less_number (length b) tot_cells_size' then Inl NotEnoughBytesForCellsData
      else Inr (take (to_index tot_cells_size') b, drop (to_index tot_cells_size') b))"

text \<open>
  CRC32: the checksum function \<^verbatim>\<open>crc32c\<close> is not among the sources and is a
  parameter. \<open>inputData\<close> is the whole input, saved before the first read.
\<close>

definition checkCrc32 :: "(Buffer \<Rightarrow> Buffer) \<Rightarrow> bool \<Rightarrow> Buffer \<Rightarrow> Buffer \<Rightarrow> error + Buffer" where
  "checkCrc32 crc32c hash_crc32' inputData b =
     (if hash_crc32' then
        if length b < 4 then Inl NotEnoughBytesForCrc32c
        else if crc32c (take (length inputData - 4) inputData) \<noteq> take 4 b
        then Inl Crc32cHashsumMismatch
        else Inr (drop 4 b)
      else Inr b)"

definition parseBocHeader :: "(Buffer \<Rightarrow> Buffer) \<Rightarrow> Buffer \<Rightarrow> error + BocHeader" where
  "parseBocHeader crc32c inputData =
     (if length inputData < 4 + 1 then Inl NotEnoughBytesForMagicPrefix
      else case parsePrefix inputData of
        Inl e \<Rightarrow> Inl e
      | Inr (has_idx', hash_crc32', has_cache_bits', flags', size_bytes') \<Rightarrow>
      (case parseCounters size_bytes' (drop 1 (drop 4 inputData)) of
        Inl e \<Rightarrow> Inl e
      | Inr (offset_bytes, cells_num', roots_num', absent_num', tot_cells_size', b6) \<Rightarrow>
      (case parseRoots roots_num' size_bytes' b6 of
        Inl e \<Rightarrow> Inl e
      | Inr (root_list', b7) \<Rightarrow>
      (case parseIndex has_idx' cells_num' offset_bytes b7 of
        Inl e \<Rightarrow> Inl e
      | Inr (index', b8) \<Rightarrow>
      (case parseCellsData tot_cells_size' b8 of
        Inl e \<Rightarrow> Inl e
      | Inr (cells_data', b9) \<Rightarrow>
      (case checkCrc32 crc32c hash_crc32' inputData b9 of
        Inl e \<Rightarrow> Inl e
      | Inr b10 \<Rightarrow>
        if b10 \<noteq> [] then Inl TooMuchBytes
        else Inr \<lparr> has_idx = has_idx', hash_crc32 = hash_crc32',
                   has_cache_bits = has_cache_bits', flags = flags',
                   size_bytes = size_bytes', off_bytes = offset_bytes,
                   cells_num = cells_num', roots_num = roots_num',
                   absent_num = absent_num', tot_cells_size = tot_cells_size',
                   root_list = root_list', index = index',
                   cells_data = cells_data' \<rparr>))))))"

section \<open>Bit strings\<close>

text \<open>
  Modelled from the spec: the class \<^verbatim>\<open>BitString\<close> is not among the sources. The spec
  describes it as a bit-packed buffer with a cursor that counts the bits used, encoded
  byte-aligned ("top-upped"): when the bits do not fill whole bytes, a marker bit 1 and
  then zeros are appended, and the decoder, when told that the bytes are not all full,
  finds the lowest set bit at the end and drops it with the zeros after it. The model is
  the list of the bits used; bytes hold bits most significant first.
\<close>

type_synonym BitString = "bool list"

definition cursor :: "BitString \<Rightarrow> nat" where
  "cursor bs = length bs"

fun bits_to_nat :: "bool list \<Rightarrow> nat \<Rightarrow> nat" where
  "bits_to_nat [] acc = acc"
| "bits_to_nat (b # bs) acc = bits_to_nat bs (2 * acc + (if b then 1 else 0))"

fun nat_to_bits :: "nat \<Rightarrow> nat \<Rightarrow> bool list" where
  "nat_to_bits 0 n = []"
| "nat_to_bits (Suc k) n = nat_to_bits k (n div 2) @ [odd n]"

definition byte_of_bits :: "bool list \<Rightarrow> byte" where
  "byte_of_bits bs = of_nat (bits_to_nat bs 0)"

definition bits_of_byte :: "byte \<Rightarrow> bool list" where
  "bits_of_byte b = nat_to_bits 8 (unat b)"

fun bytes_of_bits :: "bool list \<Rightarrow> Buffer" where
  "bytes_of_bits [] = []"
| "bytes_of_bits (b # bs) = byte_of_bits (take 8 (b # bs)) # bytes_of_bits (drop 8 (b # bs))"

definition getTopUppedLength :: "BitString \<Rightarrow> nat" where
  "getTopUppedLength bs = (cursor bs + 7) div 8"

definition getTopUppedArray :: "BitString \<Rightarrow> Buffer" where
  "getTopUppedArray bs =
     (if cursor bs mod 8 = 0 then bytes_of_bits bs
      else bytes_of_bits (bs @ True # replicate (7 - cursor bs mod 8) False))"

text \<open>
  The search for the marker from the end of the bits: at most seven bits are looked at,
  and the decoder fails when none of them is set.
\<close>

fun dropMarker :: "nat \<Rightarrow> bool list \<Rightarrow> error + bool list" where
  "dropMarker 0 rbits = Inl IncorrectTopUppedArray"
| "dropMarker (Suc n) [] = Inl IncorrectTopUppedArray"
| "dropMarker (Suc n) (b # rbits) = (if b then Inr (rev rbits) else dropMarker n rbits)"

definition fromTopUppedArray :: "Buffer \<Rightarrow> bool \<Rightarrow> error + BitString" where
  "fromTopUppedArray array fullfilledBytes =
     (let bits = concat (map bits_of_byte array)
      in if fullfilledBytes \<or> array = [] then Inr bits
         else dropMarker 7 (rev bits))"

section \<open>Cell record codec: deserializeCellData\<close>

datatype CellType = ordinary | pruned | library_reference | merkle_proof | merkle_update

text \<open>
  \<^verbatim>\<open>subarray\<close> with an end or a start that can be negative (\<open>dataBytesize\<close> is
  decremented for an exotic cell and is \<open>- 1\<close> when the descriptor gave 0): a negative
  index counts from the end, and every index is clamped to the buffer.
\<close>

definition rel_index :: "nat \<Rightarrow> int \<Rightarrow> nat" where
  "rel_index len i = (if i < 0 then nat (int len + i) else min (nat i) len)"

definition subarray_to :: "'a list \<Rightarrow> int \<Rightarrow> 'a list" where
  "subarray_to xs e = take (rel_index (length xs) e) xs"

definition subarray_from :: "'a list \<Rightarrow> int \<Rightarrow> 'a list" where
  "subarray_from xs b = drop (rel_index (length xs) b) xs"

text \<open>
  The branch \<^verbatim>\<open>if (isExotic) { ... }\<close>: the kind, the rest of the data and
  \<open>dataBytesize\<close>. \<^verbatim>\<open>readUInt8\<close> on an empty buffer throws a range error.
\<close>

definition readKind :: "bool \<Rightarrow> Buffer \<Rightarrow> nat \<Rightarrow> error + (CellType \<times> Buffer \<times> int)" where
  "readKind isExotic cellData dataBytesize =
     (if isExotic then
        (case cellData of
           [] \<Rightarrow> Inl RangeError
         | k # rest \<Rightarrow>
             if k = 1 then Inr (pruned, rest, int dataBytesize - 1)
             else if k = 2 then Inr (library_reference, rest, int dataBytesize - 1)
             else if k = 3 then Inr (merkle_proof, rest, int dataBytesize - 1)
             else if k = 4 then Inr (merkle_update, rest, int dataBytesize - 1)
             else Inl (InvalidCellType (unat k)))
      else Inr (ordinary, cellData, int dataBytesize))"

text \<open>
  \<^verbatim>\<open>deserializeCellData\<close> returns the new cell (its kind and bits; its refs are
  empty), the raw reference indices and the residue.
\<close>

definition deserializeCellData ::
  "Buffer \<Rightarrow> nat \<Rightarrow> error + ((CellType \<times> BitString) \<times> number list \<times> Buffer)" where
  "deserializeCellData cellData referenceIndexSize =
     (if length cellData < 2 then Inl NotEnoughBytesForCellDescriptors
      else
        let d1 = cellData ! 0;
            d2 = cellData ! 1;
            cellData1 = drop 2 cellData;
            isExotic = (d1 AND 8 \<noteq> 0);
            refNum = unat d1 mod 8;
            dataBytesize = (unat d2 + 1) div 2;
            fullfilledBytes = (unat d2 mod 2 = 0)
        in
        if length cellData1 < dataBytesize + referenceIndexSize * refNum
        then Inl NotEnoughBytesForCellData
        else
        (case readKind isExotic cellData1 dataBytesize of
           Inl e \<Rightarrow> Inl e
         | Inr (kind, cellData2, dataBytesize') \<Rightarrow>
         (case fromTopUppedArray (subarray_to cellData2 dataBytesize') fullfilledBytes of
           Inl e \<Rightarrow> Inl e
         | Inr bits \<Rightarrow>
             let cellData3 = subarray_from cellData2 dataBytesize';
                 (refs, residue) = readList refNum referenceIndexSize cellData3
             in Inr ((kind, bits), refs, residue))))"

section \<open>Deserializer: deserializeBoc\<close>

text \<open>
  The deserializer creates one cell object for each record and then links the objects
  by reference. The array \<^verbatim>\<open>cells_array\<close> is the store of these objects: an object is
  known by its position, and an element of a \<^verbatim>\<open>refs\<close> array (or of the result) is
  either a reference to the object at some position or \<^verbatim>\<open>undefined\<close>, which is what
  indexing \<^verbatim>\<open>cells_array\<close> outside its bounds (or at \<open>NaN\<close>) gives.
\<close>

datatype cellref = undefined_ref | cell_ref nat

record CellObj =
  obj_kind :: CellType
  obj_bits :: BitString
  obj_refs :: "cellref list"

text \<open>The first loop: \<open>cells_num\<close> records are decoded one after the other.\<close>

fun readCells :: "nat \<Rightarrow> nat \<Rightarrow> Buffer \<Rightarrow> error + (CellObj list \<times> number list list)" where
  "readCells 0 sz cells_data' = Inr ([], [])"
| "readCells (Suc n) sz cells_data' =
     (case deserializeCellData cells_data' sz of
        Inl e \<Rightarrow> Inl e
      | Inr ((kind, bits), refs, residue) \<Rightarrow>
        (case readCells n sz residue of
           Inl e \<Rightarrow> Inl e
         | Inr (cells_array, refs_array) \<Rightarrow>
             Inr (\<lparr> obj_kind = kind, obj_bits = bits, obj_refs = [] \<rparr> # cells_array,
                  refs # refs_array)))"

text \<open>\<^verbatim>\<open>r < ci\<close> for a raw index \<open>r\<close>, and \<^verbatim>\<open>cells_array[r]\<close>.\<close>

fun index_less :: "number \<Rightarrow> nat \<Rightarrow> bool" where
  "index_less NaN ci = False"
| "index_less (Num r) ci = (r < ci)"

fun cell_at :: "nat \<Rightarrow> number \<Rightarrow> cellref" where
  "cell_at len NaN = undefined_ref"
| "cell_at len (Num r) = (if r < len then cell_ref r else undefined_ref)"

text \<open>
  The inner loop over the raw indices of cell \<open>ci\<close>: the assignments
  \<^verbatim>\<open>cells_array[ci].refs[ri] = cells_array[r]\<close> for \<open>ri = 0, 1, ...\<close> fill the empty
  \<^verbatim>\<open>refs\<close> array in order; the result is the array filled.
\<close>

fun linkRefs :: "nat \<Rightarrow> nat \<Rightarrow> number list \<Rightarrow> error + cellref list" where
  "linkRefs len ci [] = Inr []"
| "linkRefs len ci (r # c) =
     (if index_less r ci then Inl TopologicalOrderIsBroken
      else case linkRefs len ci c of
        Inl e \<Rightarrow> Inl e
      | Inr refs \<Rightarrow> Inr (cell_at len r # refs))"

text \<open>The outer loop, from \<open>ci = cells_num - 1\<close> down to 0; the argument counts \<open>ci + 1\<close>.\<close>

fun linkCells :: "nat \<Rightarrow> CellObj list \<Rightarrow> number list list \<Rightarrow> error + CellObj list" where
  "linkCells 0 cells_array refs_array = Inr cells_array"
| "linkCells (Suc ci) cells_array refs_array =
     (case linkRefs (length cells_array) ci (refs_array ! ci) of
        Inl e \<Rightarrow> Inl e
      | Inr refs \<Rightarrow>
          linkCells ci (cells_array[ci := (cells_array ! ci)\<lparr> obj_refs := refs \<rparr>]) refs_array)"

text \<open>
  \<^verbatim>\<open>deserializeBoc\<close> returns the array of root cells; the model returns the store
  with it, since the roots are references into it.
\<close>

definition deserializeBoc ::
  "(Buffer \<Rightarrow> Buffer) \<Rightarrow> Buffer \<Rightarrow> error + (CellObj list \<times> cellref list)" where
  "deserializeBoc crc32c serializedBoc =
     (case parseBocHeader crc32c serializedBoc of
        Inl e \<Rightarrow> Inl e
      | Inr header \<Rightarrow>
        (case readCells (to_index (cells_num header)) (size_bytes header) (cells_data header) of
           Inl e \<Rightarrow> Inl e
         | Inr (cells_array, refs_array) \<Rightarrow>
           (case linkCells (to_index (cells_num header)) cells_array refs_array of
              Inl e \<Rightarrow> Inl e
            | Inr linked \<Rightarrow>
                Inr (linked, map (cell_at (length linked)) (root_list header)))))"

section \<open>Cells and the cache context\<close>

text \<open>
  A cell object has a kind, a bit string and an array of references to cell objects. The
  hash engine is defined on finite acyclic graphs of such objects; the model represents
  such a graph by its unfolding under the root, a tree, in which every node carries the
  identity \<open>ident\<close> of the object it stands for, so that an object that is reached on
  several paths occurs several times with the same identity.

  Modelled from the spec: the class \<^verbatim>\<open>Cell\<close> is not among the sources. Its property
  \<^verbatim>\<open>isExotic\<close> is true of every kind but \<open>ordinary\<close>, and its method
  \<^verbatim>\<open>hash()\<close> is \<^verbatim>\<open>hashCell\<close> of the cell.
\<close>

datatype Cell = Cell (ident: nat) (kind: CellType) (bits: BitString) (refs: "Cell list")

definition isExotic :: "Cell \<Rightarrow> bool" where
  "isExotic cell = (kind cell \<noteq> ordinary)"

text \<open>
  The module variable \<^verbatim>\<open>cacheContext\<close> is \<^verbatim>\<open>null\<close> or a symbol; symbols are
  numbered in the order of their creation, and \<open>symbols\<close> counts those created so far.
  The cache of a cell under a context is the property of the cell object that the symbol
  names: \<open>slots\<close> maps the identity of the object and the symbol to it. A property that
  was never set reads as the cache \<^verbatim>\<open>{ hash: null, maxDepth: null }\<close> that
  \<^verbatim>\<open>getCellCache\<close> would create.
\<close>

record CellCache =
  hash :: "Buffer option"
  maxDepth :: "nat option"

record Context =
  cacheContext :: "nat option"
  symbols :: nat
  slots :: "nat \<times> nat \<Rightarrow> CellCache"

definition emptyCache :: CellCache where
  "emptyCache = \<lparr> hash = None, maxDepth = None \<rparr>"

definition initialContext :: Context where
  "initialContext = \<lparr> cacheContext = None, symbols = 0, slots = (\<lambda>_. emptyCache) \<rparr>"

text \<open>
  \<^verbatim>\<open>inCache\<close> on a cell object: the handler gets the cache as the key of its slot,
  since it reads and writes the cache object after the calls it makes. On a cell object
  \<^verbatim>\<open>getCellCache\<close> returns, and the handlers of this module do not throw, so
  \<^verbatim>\<open>finally\<close> is what follows the handler. The call of \<^verbatim>\<open>getCellCache\<close> stands
  between the assignment of the context and \<^verbatim>\<open>try\<close>: where it throws, the context is
  not reset; that path is \<open>inCache_undefined\<close> below.
\<close>

definition inCache ::
  "Cell \<Rightarrow> (nat \<times> nat \<Rightarrow> Context \<Rightarrow> 'a \<times> Context) \<Rightarrow> Context \<Rightarrow> 'a \<times> Context" where
  "inCache cell handler s =
     (let wasCreated = (cacheContext s = None);
          s1 = (if wasCreated
                then s\<lparr> cacheContext := Some (symbols s), symbols := Suc (symbols s) \<rparr>
                else s);
          cache = (ident cell, the (cacheContext s1));
          (r, s2) = handler cache s1
      in (r, if wasCreated then s2\<lparr> cacheContext := None \<rparr> else s2))"

lemma inCache_cong [fundef_cong]:
  "cell = cell' \<Longrightarrow> s = s' \<Longrightarrow> (\<And>cache t. handler cache t = handler' cache t) \<Longrightarrow>
     inCache cell handler s = inCache cell' handler' s'"
  by (simp add: inCache_def)

definition set_maxDepth :: "nat \<times> nat \<Rightarrow> nat \<Rightarrow> Context \<Rightarrow> Context" where
  "set_maxDepth cache d s = s\<lparr> slots := (slots s)(cache := (slots s cache)\<lparr> maxDepth := Some d \<rparr>) \<rparr>"

definition set_hash :: "nat \<times> nat \<Rightarrow> Buffer \<Rightarrow> Context \<Rightarrow> Context" where
  "set_hash cache r s = s\<lparr> slots := (slots s)(cache := (slots s cache)\<lparr> hash := Some r \<rparr>) \<rparr>"

section \<open>Hash and depth engine\<close>

text \<open>
  \<^verbatim>\<open>getMaxDepth\<close>; \<open>maxDepthLoop\<close> is its loop over \<^verbatim>\<open>cell.refs\<close>, which calls
  \<^verbatim>\<open>getMaxDepth(i)\<close> a second time when the first result exceeds \<open>maxDepth\<close>.
\<close>

fun getMaxDepth :: "Cell \<Rightarrow> Context \<Rightarrow> nat \<times> Context"
  and maxDepthLoop :: "Cell list \<Rightarrow> nat \<Rightarrow> Context \<Rightarrow> nat \<times> Context" where
  "getMaxDepth (Cell i k b rs) s =
     inCache (Cell i k b rs) (\<lambda>cache s.
       case maxDepth (slots s cache) of
         Some d \<Rightarrow> (d, s)
       | None \<Rightarrow>
           let (maxDepth', s1) =
                 (if length rs > 0
                  then (let (m, s') = maxDepthLoop rs 0 s in (m + 1, s'))
                  else (0, s))
           in (maxDepth', set_maxDepth cache maxDepth' s1)) s"
| "maxDepthLoop [] maxDepth' s = (maxDepth', s)"
| "maxDepthLoop (i # rs) maxDepth' s =
     (let (d, s1) = getMaxDepth i s
      in if d > maxDepth'
         then (let (d', s2) = getMaxDepth i s1 in maxDepthLoop rs d' s2)
         else maxDepthLoop rs maxDepth' s1)"

definition getMaxLevel :: "Cell \<Rightarrow> nat" where
  "getMaxLevel cell = 0"

definition getRefsDescriptor :: "Cell \<Rightarrow> nat" where
  "getRefsDescriptor cell =
     length (refs cell) + (if isExotic cell then 1 else 0) * 8 + getMaxLevel cell * 32"

definition getBitsDescriptor :: "Cell \<Rightarrow> nat" where
  "getBitsDescriptor cell =
     (let len = cursor (bits cell) + (if isExotic cell then 8 else 0)
      in (len + 7) div 8 + len div 8)"

text \<open>
  \<^verbatim>\<open>source.copy(target, targetStart)\<close> writes as much of the source as fits, and
  \<^verbatim>\<open>writeTopUppedArray(target, cursor)\<close> of a bit string (modelled from the spec, as
  the bit strings are) writes its top-upped bytes at the cursor.
\<close>

definition copy :: "Buffer \<Rightarrow> Buffer \<Rightarrow> nat \<Rightarrow> Buffer" where
  "copy source target targetStart =
     take targetStart target @ take (length target - targetStart) source @
     drop (targetStart + length source) target"

definition writeTopUppedArray :: "BitString \<Rightarrow> Buffer \<Rightarrow> nat \<Rightarrow> Buffer" where
  "writeTopUppedArray bs target cursor' = copy (getTopUppedArray bs) target cursor'"

text \<open>The first loop of \<^verbatim>\<open>getRepr\<close>: the depths of the children, two bytes each.\<close>

fun reprDepths :: "Cell list \<Rightarrow> Buffer \<Rightarrow> nat \<Rightarrow> Context \<Rightarrow> Buffer \<times> nat \<times> Context" where
  "reprDepths [] repr reprCursor s = (repr, reprCursor, s)"
| "reprDepths (c # cs) repr reprCursor s =
     (let (md, s1) = getMaxDepth c s;
          repr1 = repr[reprCursor := of_nat (md div 256)];
          repr2 = repr1[reprCursor + 1 := of_nat (md mod 256)]
      in reprDepths cs repr2 (reprCursor + 2) s1)"

text \<open>
  \<^verbatim>\<open>hashCell\<close>, \<^verbatim>\<open>getRepr\<close> and the second loop of \<^verbatim>\<open>getRepr\<close>, over the hashes of
  the children. The hash function \<^verbatim>\<open>sha256_sync\<close> belongs to a library and is a
  parameter.
\<close>

fun hashCell :: "(Buffer \<Rightarrow> Buffer) \<Rightarrow> Cell \<Rightarrow> Context \<Rightarrow> Buffer \<times> Context"
  and getRepr :: "(Buffer \<Rightarrow> Buffer) \<Rightarrow> Cell \<Rightarrow> Context \<Rightarrow> Buffer \<times> Context"
  and reprHashes ::
    "(Buffer \<Rightarrow> Buffer) \<Rightarrow> Cell list \<Rightarrow> Buffer \<Rightarrow> nat \<Rightarrow> Context \<Rightarrow> Buffer \<times> Context" where
  "hashCell sha256_sync (Cell i k b rs) s =
     inCache (Cell i k b rs) (\<lambda>cache s.
       case hash (slots s cache) of
         Some h \<Rightarrow> (h, s)
       | None \<Rightarrow>
           let (repr, s1) = getRepr sha256_sync (Cell i k b rs) s;
               r = sha256_sync repr
           in (r, set_hash cache r s1)) s"
| "getRepr sha256_sync (Cell i k b rs) s =
     (let cell = Cell i k b rs;
          tuLen = getTopUppedLength b;
          repr = replicate (2 + tuLen + (2 + 32) * length rs) 0;
          repr1 = repr[0 := of_nat (getRefsDescriptor cell)];
          repr2 = repr1[1 := of_nat (getBitsDescriptor cell)];
          repr3 = writeTopUppedArray b repr2 2;
          (repr4, reprCursor, s1) = reprDepths rs repr3 (2 + tuLen) s
      in reprHashes sha256_sync rs repr4 reprCursor s1)"
| "reprHashes sha256_sync [] repr reprCursor s = (repr, s)"
| "reprHashes sha256_sync (c # cs) repr reprCursor s =
     (let (h, s1) = hashCell sha256_sync c s
      in reprHashes sha256_sync cs (copy h repr reprCursor) (reprCursor + 32) s1)"


text \<open>
  \<^verbatim>\<open>inCache\<close> on \<^verbatim>\<open>undefined\<close>, which a caller has from \<^verbatim>\<open>deserializeBoc\<close>
  when a root index is out of range. The context is set if none is active; then
  \<^verbatim>\<open>getCellCache\<close> reads the property \<^verbatim>\<open>src[cacheContext]\<close> of \<^verbatim>\<open>undefined\<close>,
  which throws a \<^verbatim>\<open>TypeError\<close>. The statement is before \<^verbatim>\<open>try\<close>, so \<^verbatim>\<open>finally\<close>
  does not run and the context stays as it is.
\<close>

definition inCache_undefined :: "Context \<Rightarrow> error \<times> Context" where
  "inCache_undefined s =
     (let wasCreated = (cacheContext s = None);
          s1 = (if wasCreated
                then s\<lparr> cacheContext := Some (symbols s), symbols := Suc (symbols s) \<rparr>
                else s)
      in (TypeError, s1))"

text \<open>\<^verbatim>\<open>hashCell\<close> on a value that is a cell object or \<^verbatim>\<open>undefined\<close> (\<open>None\<close>).\<close>

definition hashCell_of ::
  "(Buffer \<Rightarrow> Buffer) \<Rightarrow> Cell option \<Rightarrow> Context \<Rightarrow> (error + Buffer) \<times> Context" where
  "hashCell_of sha256_sync cell s =
     (case cell of
        None \<Rightarrow> (Inl (fst (inCache_undefined s)), snd (inCache_undefined s))
      | Some c \<Rightarrow> (Inr (fst (hashCell sha256_sync c s)), snd (hashCell sha256_sync c s)))"

section \<open>Serializer: serializeToBoc\<close>

definition calcCellSerializedSize :: "Cell \<Rightarrow> nat \<Rightarrow> nat" where
  "calcCellSerializedSize cell sSize =
     2 + (if isExotic cell then 1 else 0) + getTopUppedLength (bits cell) +
     length (refs cell) * sSize"

text \<open>
  \<^verbatim>\<open>writeNumber\<close>: the loop \<^verbatim>\<open>b[start++] = (n >> (i * 8)) & 0xff\<close> for \<open>i\<close> from
  \<open>bytes - 1\<close> down to 0. The operator \<^verbatim>\<open>>>\<close> works on the low 32 bits of \<open>n\<close> and takes
  the shift modulo 32; the shifts here are multiples of 8, so the byte kept is a byte of
  the low 32 bits of \<open>n\<close>.
\<close>

fun writeNumber :: "Buffer \<Rightarrow> nat \<Rightarrow> nat \<Rightarrow> nat \<Rightarrow> Buffer" where
  "writeNumber b start n 0 = b"
| "writeNumber b start n (Suc i) =
     writeNumber (b[start := of_nat ((n mod 2 ^ 32) div 2 ^ ((i * 8) mod 32))]) (start + 1) n i"

text \<open>The loop of \<^verbatim>\<open>serializeForBoc\<close> over the reference indices.\<close>

fun writeRefs :: "nat list \<Rightarrow> nat \<Rightarrow> Buffer \<Rightarrow> nat \<Rightarrow> Buffer" where
  "writeRefs [] sSize repr reprCursor = repr"
| "writeRefs (refIndexInt # refs') sSize repr reprCursor =
     writeRefs refs' sSize (writeNumber repr reprCursor refIndexInt sSize) (reprCursor + sSize)"

text \<open>
  \<^verbatim>\<open>serializeForBoc\<close>. The branch for an exotic cell tests the four exotic kinds and
  throws for any other; \<open>CellType\<close> has no other kind and an exotic cell is not ordinary,
  so the model writes the type byte by cases on the kind and the throw has no case.
\<close>

definition serializeForBoc :: "Cell \<Rightarrow> nat list \<Rightarrow> nat \<Rightarrow> Buffer \<Rightarrow> nat \<Rightarrow> Buffer" where
  "serializeForBoc cell refs' sSize repr reprCursor =
     (let repr1 = repr[reprCursor := of_nat (getRefsDescriptor cell)];
          repr2 = repr1[reprCursor + 1 := of_nat (getBitsDescriptor cell)];
          (repr3, cursor3) =
            (case kind cell of
               ordinary \<Rightarrow> (repr2, reprCursor + 2)
             | pruned \<Rightarrow> (repr2[reprCursor + 2 := 1], reprCursor + 3)
             | library_reference \<Rightarrow> (repr2[reprCursor + 2 := 2], reprCursor + 3)
             | merkle_proof \<Rightarrow> (repr2[reprCursor + 2 := 3], reprCursor + 3)
             | merkle_update \<Rightarrow> (repr2[reprCursor + 2 := 4], reprCursor + 3));
          repr4 = writeTopUppedArray (bits cell) repr3 cursor3
      in writeRefs refs' sSize repr4 (cursor3 + getTopUppedLength (bits cell)))"

text \<open>\<^verbatim>\<open>n.toString(2).length\<close>: the number of binary digits of \<open>n\<close>, which is 1 for 0.\<close>

fun binaryLength :: "nat \<Rightarrow> nat" where
  "binaryLength n = (if n < 2 then 1 else 1 + binaryLength (n div 2))"

declare binaryLength.simps [simp del]

text \<open>The loop that sums the sizes: \<open>(full_size, sizeIndex)\<close>.\<close>

fun sizeLoop :: "nat list \<Rightarrow> nat \<Rightarrow> nat list \<Rightarrow> nat \<times> nat list" where
  "sizeLoop [] full_size sizeIndex = (full_size, sizeIndex)"
| "sizeLoop (sz # sizes) full_size sizeIndex =
     sizeLoop sizes (full_size + sz) (sizeIndex @ [full_size + sz])"

text \<open>The loop that writes the index, and the loop that writes the cell records.\<close>

fun writeIndex :: "nat list \<Rightarrow> nat \<Rightarrow> Buffer \<Rightarrow> nat \<Rightarrow> Buffer \<times> nat" where
  "writeIndex [] offset_bytes serialization serCursor = (serialization, serCursor)"
| "writeIndex (x # sizeIndex) offset_bytes serialization serCursor =
     writeIndex sizeIndex offset_bytes
       (writeNumber serialization serCursor x offset_bytes) (serCursor + offset_bytes)"

fun writeCells :: "(Cell \<times> nat list) list \<Rightarrow> nat \<Rightarrow> Buffer \<Rightarrow> nat \<Rightarrow> Buffer" where
  "writeCells [] s_bytes serialization serCursor = serialization"
| "writeCells ((cell, refs') # allCells) s_bytes serialization serCursor =
     writeCells allCells s_bytes
       (serializeForBoc cell refs' s_bytes serialization serCursor)
       (serCursor + calcCellSerializedSize cell s_bytes)"

text \<open>
  The body of \<^verbatim>\<open>serializeToBoc\<close>. \<^verbatim>\<open>topologicalSort\<close> is not among the sources and
  is a parameter; it returns the cells in order, each with the positions of its
  references.
\<close>

definition serializeBody ::
  "(Cell \<Rightarrow> (Cell \<times> nat list) list) \<Rightarrow> (Buffer \<Rightarrow> Buffer) \<Rightarrow>
   Cell \<Rightarrow> bool \<Rightarrow> bool \<Rightarrow> bool \<Rightarrow> nat \<Rightarrow> Buffer" where
  "serializeBody topologicalSort crc32c root_cell has_idx' hash_crc32' has_cache_bits' flags' =
     (let allCells = topologicalSort root_cell;
          cells_num' = length allCells;
          s = binaryLength cells_num';
          s_bytes = max ((s + 7) div 8) 1;
          sizes = map (\<lambda>c. calcCellSerializedSize (fst c) s_bytes) allCells;
          (full_size, sizeIndex) = sizeLoop sizes 0 [];
          offset_bits = binaryLength full_size;
          offset_bytes = max ((offset_bits + 7) div 8) 1;
          serialization0 = replicate
            (4 + 1 + 1 + 3 * s_bytes + offset_bytes + s_bytes +
             (if has_idx' then cells_num' * offset_bytes else 0) +
             full_size + (if hash_crc32' then 4 else 0)) 0;
          serialization1 = copy reachBocMagicPrefix serialization0 0;
          serialization2 = serialization1[4 := of_nat
            (push_bit 7 (if has_idx' then 1 else 0) OR
             push_bit 6 (if hash_crc32' then 1 else 0) OR
             push_bit 5 (if has_cache_bits' then 1 else 0) OR
             push_bit 3 flags' OR s_bytes)];
          serialization3 = serialization2[5 := of_nat offset_bytes];
          serialization4 = writeNumber serialization3 6 cells_num' s_bytes;
          serialization5 = writeNumber serialization4 (6 + s_bytes) 1 s_bytes;
          serialization6 = writeNumber serialization5 (6 + 2 * s_bytes) 0 s_bytes;
          serialization7 = writeNumber serialization6 (6 + 3 * s_bytes) full_size offset_bytes;
          serialization8 =
            writeNumber serialization7 (6 + 3 * s_bytes + offset_bytes) 0 s_bytes;
          serCursor = 6 + 4 * s_bytes + offset_bytes;
          (serialization9, serCursor') =
            (if has_idx' then writeIndex sizeIndex offset_bytes serialization8 serCursor
             else (serialization8, serCursor));
          serialization10 = writeCells allCells s_bytes serialization9 serCursor'
      in if hash_crc32'
         then copy (crc32c (take (length serialization10 - 4) serialization10))
                serialization10 (length serialization10 - 4)
         else serialization10)"

text \<open>\<^verbatim>\<open>serializeToBoc\<close> runs the body in a cache context.\<close>

definition serializeToBoc ::
  "(Cell \<Rightarrow> (Cell \<times> nat list) list) \<Rightarrow> (Buffer \<Rightarrow> Buffer) \<Rightarrow>
   Cell \<Rightarrow> bool \<Rightarrow> bool \<Rightarrow> bool \<Rightarrow> nat \<Rightarrow> Context \<Rightarrow> Buffer \<times> Context" where
  "serializeToBoc topologicalSort crc32c cell has_idx' hash_crc32' has_cache_bits' flags' s =
     inCache cell
       (\<lambda>cache s. (serializeBody topologicalSort crc32c cell
                      has_idx' hash_crc32' has_cache_bits' flags', s)) s"

text \<open>
  Modelled from the spec: \<^verbatim>\<open>topologicalSort\<close> is not among the sources. The spec says
  that it returns an ordered sequence of cells and, for each, the positions of its
  children in the same sequence, every child's position greater than its parent's; the
  serializer writes 0 as the index of the root, so the root is first, and the sequence
  holds cells of the graph only, so every other cell is the child of an earlier one.
\<close>

definition topologicalOrder :: "Cell \<Rightarrow> (Cell \<times> nat list) list \<Rightarrow> bool" where
  "topologicalOrder root_cell allCells =
     (allCells \<noteq> [] \<and> fst (allCells ! 0) = root_cell \<and>
      (\<forall>i < length allCells.
         length (snd (allCells ! i)) = length (refs (fst (allCells ! i))) \<and>
         (\<forall>j < length (snd (allCells ! i)).
            i < snd (allCells ! i) ! j \<and> snd (allCells ! i) ! j < length allCells \<and>
            fst (allCells ! (snd (allCells ! i) ! j)) = refs (fst (allCells ! i)) ! j)) \<and>
      (\<forall>i < length allCells. 0 < i \<longrightarrow> (\<exists>p < i. i \<in> set (snd (allCells ! p)))))"

section \<open>Reference definitions for the hash and depth engine\<close>

text \<open>
  The depth and the hash of a cell as functions of the cell alone, without the cache;
  \<open>fillDepths\<close> and \<open>fillHashes\<close> are the two loops of \<^verbatim>\<open>getRepr\<close> on values already
  computed. The engine with the cache is proved to compute these.
\<close>

fun depth :: "Cell \<Rightarrow> nat" where
  "depth (Cell i k b rs) = (if rs = [] then 0 else fold max (map depth rs) 0 + 1)"

fun fillDepths :: "nat list \<Rightarrow> Buffer \<Rightarrow> nat \<Rightarrow> Buffer" where
  "fillDepths [] repr reprCursor = repr"
| "fillDepths (md # mds) repr reprCursor =
     fillDepths mds
       (repr[reprCursor := of_nat (md div 256), reprCursor + 1 := of_nat (md mod 256)])
       (reprCursor + 2)"

fun fillHashes :: "Buffer list \<Rightarrow> Buffer \<Rightarrow> nat \<Rightarrow> Buffer" where
  "fillHashes [] repr reprCursor = repr"
| "fillHashes (h # hs) repr reprCursor = fillHashes hs (copy h repr reprCursor) (reprCursor + 32)"

fun cellHash :: "(Buffer \<Rightarrow> Buffer) \<Rightarrow> Cell \<Rightarrow> Buffer" where
  "cellHash sha256_sync (Cell i k b rs) =
     sha256_sync
       (fillHashes (map (cellHash sha256_sync) rs)
          (fillDepths (map depth rs)
             (writeTopUppedArray b
                ((replicate (2 + getTopUppedLength b + (2 + 32) * length rs) 0)
                   [0 := of_nat (getRefsDescriptor (Cell i k b rs)),
                    1 := of_nat (getBitsDescriptor (Cell i k b rs))]) 2)
             (2 + getTopUppedLength b))
          (2 + getTopUppedLength b + 2 * length rs))"

text \<open>
  The objects of a graph, and the graphs that the model admits: nodes with the same
  identity stand for the same object, so they are equal.
\<close>

fun subcells :: "Cell \<Rightarrow> Cell set" where
  "subcells (Cell i k b rs) = insert (Cell i k b rs) (\<Union> (subcells ` set rs))"

definition consistent :: "Cell \<Rightarrow> bool" where
  "consistent U = (\<forall>x \<in> subcells U. \<forall>y \<in> subcells U. ident x = ident y \<longrightarrow> x = y)"

text \<open>
  The states that the module can be in: no property is stored under a symbol that has
  not been created, and the current symbol, if any, has been created. \<open>cache_ok\<close> says in
  addition that what the caches of the current context hold for the objects of \<open>U\<close> is
  right.
\<close>

definition wf_context :: "Context \<Rightarrow> bool" where
  "wf_context s =
     ((\<forall>i k. symbols s \<le> k \<longrightarrow> slots s (i, k) = emptyCache) \<and>
      (\<forall>k. cacheContext s = Some k \<longrightarrow> k < symbols s))"

definition cache_ok :: "(Buffer \<Rightarrow> Buffer) \<Rightarrow> Cell \<Rightarrow> Context \<Rightarrow> bool" where
  "cache_ok sha256_sync U s =
     (wf_context s \<and>
      (\<forall>k. cacheContext s = Some k \<longrightarrow>
         (\<forall>c \<in> subcells U.
            (\<forall>d. maxDepth (slots s (ident c, k)) = Some d \<longrightarrow> d = depth c) \<and>
            (\<forall>h. hash (slots s (ident c, k)) = Some h \<longrightarrow> h = cellHash sha256_sync c))))"

definition cellRepr :: "(Buffer \<Rightarrow> Buffer) \<Rightarrow> Cell \<Rightarrow> Buffer" where
  "cellRepr sha256_sync cell =
     fillHashes (map (cellHash sha256_sync) (refs cell))
       (fillDepths (map depth (refs cell))
          (writeTopUppedArray (bits cell)
             ((replicate (2 + getTopUppedLength (bits cell) + (2 + 32) * length (refs cell)) 0)
                [0 := of_nat (getRefsDescriptor cell),
                 1 := of_nat (getBitsDescriptor cell)]) 2)
          (2 + getTopUppedLength (bits cell)))
       (2 + getTopUppedLength (bits cell) + 2 * length (refs cell))"

section \<open>Top-level calls\<close>

text \<open>
  Between two top-level calls no cache context is active. \<open>idle\<close> are the states of the
  module at such a moment, and \<open>run_calls\<close> is what a caller does who makes top-level
  calls one after the other, throwing the results away.
\<close>

definition idle :: "Context \<Rightarrow> bool" where
  "idle s = (wf_context s \<and> cacheContext s = None)"

datatype call =
    HashCell Cell
  | GetMaxDepth Cell
  | SerializeToBoc Cell bool bool bool nat

fun callee :: "call \<Rightarrow> Cell" where
  "callee (HashCell c) = c"
| "callee (GetMaxDepth c) = c"
| "callee (SerializeToBoc c has_idx' hash_crc32' has_cache_bits' flags') = c"

fun run_call ::
  "(Buffer \<Rightarrow> Buffer) \<Rightarrow> (Cell \<Rightarrow> (Cell \<times> nat list) list) \<Rightarrow> (Buffer \<Rightarrow> Buffer) \<Rightarrow>
   call \<Rightarrow> Context \<Rightarrow> Context" where
  "run_call sha256_sync topologicalSort crc32c (HashCell c) s = snd (hashCell sha256_sync c s)"
| "run_call sha256_sync topologicalSort crc32c (GetMaxDepth c) s = snd (getMaxDepth c s)"
| "run_call sha256_sync topologicalSort crc32c
     (SerializeToBoc c has_idx' hash_crc32' has_cache_bits' flags') s =
     snd (serializeToBoc topologicalSort crc32c c has_idx' hash_crc32' has_cache_bits' flags' s)"

fun run_calls ::
  "(Buffer \<Rightarrow> Buffer) \<Rightarrow> (Cell \<Rightarrow> (Cell \<times> nat list) list) \<Rightarrow> (Buffer \<Rightarrow> Buffer) \<Rightarrow>
   call list \<Rightarrow> Context \<Rightarrow> Context" where
  "run_calls sha256_sync topologicalSort crc32c [] s = s"
| "run_calls sha256_sync topologicalSort crc32c (x # xs) s =
     run_calls sha256_sync topologicalSort crc32c xs
       (run_call sha256_sync topologicalSort crc32c x s)"

section \<open>The representation of a cell, as the specification words it\<close>




section \<open>From the store of the deserializer to a cell graph\<close>



section \<open>The bytes of a container\<close>

text \<open>
  What \<open>writeNumber\<close> writes, the record that \<open>serializeForBoc\<close> writes for a cell, and the
  container that \<open>serializeBody\<close> writes, as lists of bytes; the writes into the buffer are
  proved to produce them.
\<close>

fun numberBytes :: "nat \<Rightarrow> nat \<Rightarrow> Buffer" where
  "numberBytes 0 n = []"
| "numberBytes (Suc i) n = of_nat ((n mod 2 ^ 32) div 2 ^ ((i * 8) mod 32)) # numberBytes i n"








section \<open>A graph with more than \<open>2 ^ 32\<close> bytes of records\<close>





section \<open>The checksum function\<close>

text \<open>
  Modelled from the spec: \<^verbatim>\<open>crc32c\<close> is not among the sources. The spec says that it
  takes bytes to the four bytes of their CRC32C, the checksum with the Castagnoli
  polynomial; the model computes it bit by bit, with the polynomial reflected, and returns
  the least significant byte first. The parser and the serializer take the checksum
  function as a parameter; this one is for the evaluation of the parser on inputs with
  their real checksums.
\<close>

definition crcStep :: "32 word \<Rightarrow> 32 word" where
  "crcStep c = (if c AND 1 = 1 then drop_bit 1 c XOR 0x82F63B78 else drop_bit 1 c)"

definition crcByte :: "byte \<Rightarrow> 32 word \<Rightarrow> 32 word" where
  "crcByte b c =
     crcStep (crcStep (crcStep (crcStep (crcStep (crcStep (crcStep (crcStep (c XOR ucast b))))))))"

definition crc32c_castagnoli :: "Buffer \<Rightarrow> Buffer" where
  "crc32c_castagnoli source =
     (let crc = fold crcByte source 0xFFFFFFFF XOR 0xFFFFFFFF
      in [ucast crc, ucast (drop_bit 8 crc), ucast (drop_bit 16 crc), ucast (drop_bit 24 crc)])"

section \<open>Properties of the header codec\<close>

text \<open>Evaluation of the read loops at numerals.\<close>

lemma readLoop_numeral [simp]:
  "readLoop (numeral k) [] res = NaN"
  "readLoop (numeral k) (b # bs) NaN = NaN"
  "readLoop (numeral k) (b # bs) (Num r) = readLoop (pred_numeral k) bs (Num (r * 256 + unat b))"
  by (simp_all add: numeral_eq_Suc)

lemma readList_numeral [simp]:
  "readList (numeral k) w buf =
     (let x = readNBytesUIntFromArray w buf;
          (xs, rest) = readList (pred_numeral k) w (drop w buf)
      in (x # xs, rest))"
  by (simp add: numeral_eq_Suc)

lemmas parse_defs = parseBocHeader_def parsePrefix_def parseCounters_def parseRoots_def
  parseIndex_def parseCellsData_def checkCrc32_def reachBocMagicPrefix_def
  leanBocMagicPrefix_def leanBocMagicPrefixCRC_def readNBytesUIntFromArray_def

lemma parseBocHeader_Inr:
  "parseBocHeader crc32c inputData = Inr h \<longleftrightarrow>
     (\<exists>hi hc hb fl sb ob cn rn an ts b6 rl b7 ix b8 cd b9.
        5 \<le> length inputData \<and>
        parsePrefix inputData = Inr (hi, hc, hb, fl, sb) \<and>
        parseCounters sb (drop 5 inputData) = Inr (ob, cn, rn, an, ts, b6) \<and>
        parseRoots rn sb b6 = Inr (rl, b7) \<and>
        parseIndex hi cn ob b7 = Inr (ix, b8) \<and>
        parseCellsData ts b8 = Inr (cd, b9) \<and>
        checkCrc32 crc32c hc inputData b9 = Inr [] \<and>
        h = \<lparr> has_idx = hi, hash_crc32 = hc, has_cache_bits = hb, flags = fl,
              size_bytes = sb, off_bytes = ob, cells_num = cn, roots_num = rn,
              absent_num = an, tot_cells_size = ts, root_list = rl, index = ix,
              cells_data = cd \<rparr>)"
  unfolding parseBocHeader_def
  by (auto split: sum.split prod.split)

lemma readList_rest: "readList c w b = (xs, rest) \<Longrightarrow> rest = drop (c * w) b"
proof (induction c arbitrary: b xs rest)
  case 0
  then show ?case by simp
next
  case (Suc c)
  obtain ys r where r: "readList c w (drop w b) = (ys, r)" by (cases "readList c w (drop w b)")
  with Suc.prems have "rest = r" by (simp add: Let_def)
  moreover from Suc.IH [OF r] have "r = drop (c * w) (drop w b)" .
  ultimately show ?case by (simp add: add.commute)
qed

lemma parseCounters_rest:
  "parseCounters sb b1 = Inr (ob, cn, rn, an, ts, b6) \<Longrightarrow> \<exists>k. b6 = drop k b1"
  by (auto simp: parseCounters_def Let_def split: if_splits)

lemma parseRoots_rest: "parseRoots rn sb b = Inr (rl, r) \<Longrightarrow> \<exists>k. r = drop k b"
  by (auto simp: parseRoots_def split: if_splits dest: readList_rest)

lemma parseIndex_rest: "parseIndex hi cn ob b = Inr (ix, r) \<Longrightarrow> \<exists>k. r = drop k b"
  by (auto simp: parseIndex_def split: if_splits prod.splits dest: readList_rest intro: exI [of _ 0])

lemma parseCellsData_split: "parseCellsData ts b = Inr (cd, r) \<Longrightarrow> b = cd @ r"
  by (auto simp: parseCellsData_def split: if_splits)

lemma checkCrc32_trailer:
  "checkCrc32 crc32c True inputData b = Inr [] \<Longrightarrow>
     length b = 4 \<and> crc32c (take (length inputData - 4) inputData) = b"
  by (auto simp: checkCrc32_def split: if_splits)

lemma parse_suffix:
  assumes c: "parseCounters sb (drop 5 inputData) = Inr (ob, cn, rn, an, ts, b6)"
    and r: "parseRoots rn sb b6 = Inr (rl, b7)"
    and i: "parseIndex hi cn ob b7 = Inr (ix, b8)"
    and d: "parseCellsData ts b8 = Inr (cd, b9)"
  shows "\<exists>pre. inputData = pre @ cd @ b9"
proof -
  from c r i obtain n where "b8 = drop n inputData"
    by (auto dest!: parseCounters_rest parseRoots_rest parseIndex_rest)
  then have "inputData = take n inputData @ b8" by simp
  with parseCellsData_split [OF d] have "inputData = take n inputData @ cd @ b9" by simp
  then show ?thesis ..
qed

lemma parse_region:
  assumes "parseBocHeader crc32c inputData = Inr h" and "hash_crc32 h"
  shows "\<exists>header trailer. inputData = header @ cells_data h @ trailer \<and> length trailer = 4 \<and>
           crc32c (header @ cells_data h) = trailer"
proof -
  from assms obtain hi hb fl sb ob cn rn an ts b6 rl b7 ix b8 cd b9 where
    p: "parsePrefix inputData = Inr (hi, True, hb, fl, sb)" and
    c: "parseCounters sb (drop 5 inputData) = Inr (ob, cn, rn, an, ts, b6)" and
    r: "parseRoots rn sb b6 = Inr (rl, b7)" and
    i: "parseIndex hi cn ob b7 = Inr (ix, b8)" and
    d: "parseCellsData ts b8 = Inr (cd, b9)" and
    k: "checkCrc32 crc32c True inputData b9 = Inr []" and
    cd: "cells_data h = cd"
    by (auto simp: parseBocHeader_Inr)
  from parse_suffix [OF c r i d] obtain pre where inp: "inputData = pre @ cd @ b9" ..
  from checkCrc32_trailer [OF k] have l: "length b9 = 4"
    and e: "crc32c (take (length inputData - 4) inputData) = b9" by simp_all
  from l have "take (length (pre @ cd @ b9) - 4) (pre @ cd @ b9) = pre @ cd" by simp
  with inp have "take (length inputData - 4) inputData = pre @ cd" by simp
  with e inp l cd show ?thesis by auto
qed

lemma parse_mismatch:
  assumes "parseBocHeader crc' inputData = Inr h" and "hash_crc32 h"
    and ne: "crc32c (take (length inputData - 4) inputData) \<noteq> drop (length inputData - 4) inputData"
  shows "parseBocHeader crc32c inputData = Inl Crc32cHashsumMismatch"
proof -
  from assms obtain hi hb fl sb ob cn rn an ts b6 rl b7 ix b8 cd b9 where
    len: "5 \<le> length inputData" and
    p: "parsePrefix inputData = Inr (hi, True, hb, fl, sb)" and
    c: "parseCounters sb (drop 5 inputData) = Inr (ob, cn, rn, an, ts, b6)" and
    r: "parseRoots rn sb b6 = Inr (rl, b7)" and
    i: "parseIndex hi cn ob b7 = Inr (ix, b8)" and
    d: "parseCellsData ts b8 = Inr (cd, b9)" and
    k: "checkCrc32 crc' True inputData b9 = Inr []"
    by (auto simp: parseBocHeader_Inr)
  from parse_suffix [OF c r i d] obtain pre where inp: "inputData = pre @ cd @ b9" ..
  from checkCrc32_trailer [OF k] have l: "length b9 = 4" by simp
  from l have "drop (length (pre @ cd @ b9) - 4) (pre @ cd @ b9) = b9" by simp
  with inp have "drop (length inputData - 4) inputData = b9" by simp
  with ne l have "checkCrc32 crc32c True inputData b9 = Inl Crc32cHashsumMismatch"
    by (simp add: checkCrc32_def)
  with len p c r i d show ?thesis by (simp add: parseBocHeader_def)
qed

text \<open>
  C2 (length checks before reads). The check before the counters asks for
  \<open>1 + 5 * size_bytes\<close> bytes, while the reads that follow take
  \<open>1 + 3 * size_bytes + offset_bytes\<close>: with \<open>size_bytes = 1\<close> and \<open>offset_bytes = 3\<close>
  the three-byte field \<open>tot_cells_size\<close> is read from the two bytes that are left. No error
  is reported: the parse succeeds and the field is \<open>NaN\<close>.
\<close>

theorem parseBocHeader_reads_past_end:
  "parseBocHeader crc32c [0xB5, 0xEE, 0x9C, 0x72, 0x01, 0x03, 0, 0, 0, 0xAA, 0xBB] =
     Inr \<lparr> has_idx = False, hash_crc32 = False, has_cache_bits = False, flags = 0,
           size_bytes = 1, off_bytes = 3, cells_num = Num 0, roots_num = Num 0,
           absent_num = Num 0, tot_cells_size = NaN,
           root_list = [], index = None, cells_data = [] \<rparr>"
  by (simp add: parse_defs Let_def)

lemmas crc_defs = crc32c_castagnoli_def crcByte_def crcStep_def

lemma parse_stage:
  assumes len: "5 \<le> length inputData"
    and p: "parsePrefix inputData = Inr (hi, True, hb, fl, sb)"
    and c: "parseCounters sb (drop 5 inputData) = Inr (ob, cn, rn, an, ts, b6)"
    and r: "parseRoots rn sb b6 = Inr (rl, b7)"
    and i: "parseIndex hi cn ob b7 = Inr (ix, b8)"
    and d: "parseCellsData ts b8 = Inr (cd, b9)"
    and t: "4 \<le> length b9"
  shows "\<exists>header. inputData = header @ cd @ b9 \<and>
           (parseBocHeader crc32c inputData = Inl Crc32cHashsumMismatch \<longleftrightarrow>
              crc32c (take (length inputData - 4) inputData) \<noteq> take 4 b9) \<and>
           (length b9 = 4 \<longrightarrow> take (length inputData - 4) inputData = header @ cd)"
proof -
  from parse_suffix [OF c r i d] obtain pre where inp: "inputData = pre @ cd @ b9" ..
  have e: "parseBocHeader crc32c inputData =
      (if crc32c (take (length inputData - 4) inputData) \<noteq> take 4 b9
       then Inl Crc32cHashsumMismatch
       else if drop 4 b9 \<noteq> [] then Inl TooMuchBytes
       else Inr \<lparr> has_idx = hi, hash_crc32 = True, has_cache_bits = hb, flags = fl,
              size_bytes = sb, off_bytes = ob, cells_num = cn, roots_num = rn,
              absent_num = an, tot_cells_size = ts, root_list = rl, index = ix,
              cells_data = cd \<rparr>)"
    using len p c r i d t by (simp add: parseBocHeader_def checkCrc32_def)
  have m: "parseBocHeader crc32c inputData = Inl Crc32cHashsumMismatch \<longleftrightarrow>
      crc32c (take (length inputData - 4) inputData) \<noteq> take 4 b9"
    unfolding e by simp
  have x: "take (length inputData - 4) inputData = pre @ cd" if "length b9 = 4"
  proof -
    from that have "take (length (pre @ cd @ b9) - 4) (pre @ cd @ b9) = pre @ cd" by simp
    with inp show ?thesis by simp
  qed
  from inp m x show ?thesis by blast
qed

text \<open>
  C3 (CRC validation). A container whose header enables the checksum is accepted only if
  it is \<open>header @ cells_data @ trailer\<close> with a four-byte trailer that equals the checksum
  of everything before it. When the sections before the checksum parse and leave at
  least four bytes \<open>b9\<close> after the cell data, the parser compares the first four of them
  with the checksum of all bytes of the input but the last four, and the
  checksum-mismatch error is reported exactly when they differ; when \<open>b9\<close> is four bytes,
  the bytes checksummed are the header and the cell data and nothing else.
\<close>

theorem crc32c_checked_region:
  "(parseBocHeader crc32c inputData = Inr h \<and> hash_crc32 h \<longrightarrow>
      (\<exists>header trailer. inputData = header @ cells_data h @ trailer \<and> length trailer = 4 \<and>
         crc32c (header @ cells_data h) = trailer)) \<and>
   (5 \<le> length inputData \<and>
    parsePrefix inputData = Inr (hi, True, hb, fl, sb) \<and>
    parseCounters sb (drop 5 inputData) = Inr (ob, cn, rn, an, ts, b6) \<and>
    parseRoots rn sb b6 = Inr (rl, b7) \<and>
    parseIndex hi cn ob b7 = Inr (ix, b8) \<and>
    parseCellsData ts b8 = Inr (cd, b9) \<and> 4 \<le> length b9 \<longrightarrow>
      (\<exists>header. inputData = header @ cd @ b9 \<and>
         (parseBocHeader crc32c inputData = Inl Crc32cHashsumMismatch \<longleftrightarrow>
            crc32c (take (length inputData - 4) inputData) \<noteq> take 4 b9) \<and>
         (length b9 = 4 \<longrightarrow> take (length inputData - 4) inputData = header @ cd)))"
  using parse_region [of crc32c inputData h]
    parse_stage [of inputData hi hb fl sb ob cn rn an ts b6 rl b7 ix b8 cd b9 crc32c]
  by blast

theorem crc32c_checked_region_witness:
  "parseBocHeader (\<lambda>_. [1, 2, 3, 4])
       [0xB5, 0xEE, 0x9C, 0x72, 0x41, 1, 1, 1, 0, 2, 0, 0, 0, 1, 2, 3, 4] =
     Inr \<lparr> has_idx = False, hash_crc32 = True, has_cache_bits = False, flags = 0,
           size_bytes = 1, off_bytes = 1, cells_num = Num 1, roots_num = Num 1,
           absent_num = Num 0, tot_cells_size = Num 2,
           root_list = [Num 0], index = None, cells_data = [0, 0] \<rparr> \<and>
   (\<exists>header trailer.
      [0xB5, 0xEE, 0x9C, 0x72, 0x41, 1, 1, 1, 0, 2, 0, 0, 0, 1, 2, 3, 4] =
        header @ [0, 0] @ trailer \<and> length trailer = 4 \<and> [1, 2, 3, 4 :: byte] = trailer) \<and>
   parsePrefix [0xB5, 0xEE, 0x9C, 0x72, 0x41, 1, 1, 1, 0, 2, 0, 0, 0, 1, 2, 3, 4] =
     Inr (False, True, False, 0, 1) \<and>
   parseCounters 1 (drop 5 [0xB5, 0xEE, 0x9C, 0x72, 0x41, 1, 1, 1, 0, 2, 0, 0, 0, 1, 2, 3, 4]) =
     Inr (1, Num 1, Num 1, Num 0, Num 2, [0, 0, 0, 1, 2, 3, 4]) \<and>
   parseRoots (Num 1) 1 [0, 0, 0, 1, 2, 3, 4] = Inr ([Num 0], [0, 0, 1, 2, 3, 4]) \<and>
   parseIndex False (Num 1) 1 [0, 0, 1, 2, 3, 4] = Inr (None, [0, 0, 1, 2, 3, 4]) \<and>
   parseCellsData (Num 2) [0, 0, 1, 2, 3, 4] = Inr ([0, 0], [1, 2, 3, 4]) \<and>
   parseBocHeader (\<lambda>_. [0, 0, 0, 0])
       [0xB5, 0xEE, 0x9C, 0x72, 0x41, 1, 1, 1, 0, 2, 0, 0, 0, 1, 2, 3, 4] =
     Inl Crc32cHashsumMismatch"
proof -
  let ?inp = "[0xB5, 0xEE, 0x9C, 0x72, 0x41, 1, 1, 1, 0, 2, 0, 0, 0, 1, 2, 3, 4] :: Buffer"
  let ?h = "\<lparr> has_idx = False, hash_crc32 = True, has_cache_bits = False, flags = 0,
           size_bytes = 1, off_bytes = 1, cells_num = Num 1, roots_num = Num 1,
           absent_num = Num 0, tot_cells_size = Num 2,
           root_list = [Num 0], index = None, cells_data = [0, 0] \<rparr>"
  have e: "parseBocHeader (\<lambda>_. [1, 2, 3, 4]) ?inp = Inr ?h"
    by (simp add: parse_defs Let_def)
  have p: "parsePrefix ?inp = Inr (False, True, False, 0, 1)"
    by (simp add: parse_defs Let_def)
  have c: "parseCounters 1 (drop 5 ?inp) = Inr (1, Num 1, Num 1, Num 0, Num 2, [0, 0, 0, 1, 2, 3, 4])"
    by (simp add: parse_defs Let_def)
  have r: "parseRoots (Num 1) 1 [0, 0, 0, 1, 2, 3, 4] = Inr ([Num 0], [0, 0, 1, 2, 3, 4])"
    by (simp add: parse_defs Let_def)
  have i: "parseIndex False (Num 1) 1 [0, 0, 1, 2, 3, 4] = Inr (None, [0, 0, 1, 2, 3, 4])"
    by (simp add: parse_defs)
  have d: "parseCellsData (Num 2) [0, 0, 1, 2, 3, 4] = Inr ([0, 0], [1, 2, 3, 4])"
    by (simp add: parse_defs)
  have ne: "(\<lambda>_. [0, 0, 0, 0 :: byte]) (take (length ?inp - 4) ?inp) \<noteq> take 4 [1, 2, 3, 4]"
    by simp
  from crc32c_checked_region [of "\<lambda>_. [1, 2, 3, 4]" ?inp ?h] e
  have a: "\<exists>header trailer. ?inp = header @ [0, 0] @ trailer \<and> length trailer = 4 \<and>
      [1, 2, 3, 4 :: byte] = trailer" by simp
  from crc32c_checked_region [of "\<lambda>_. [0, 0, 0, 0]" ?inp ?h False False 0 1 1 "Num 1" "Num 1"
      "Num 0" "Num 2" "[0, 0, 0, 1, 2, 3, 4]" "[Num 0]" "[0, 0, 1, 2, 3, 4]" None
      "[0, 0, 1, 2, 3, 4]" "[0, 0]" "[1, 2, 3, 4]"] p c r i d ne
  have b: "parseBocHeader (\<lambda>_. [0, 0, 0, 0]) ?inp = Inl Crc32cHashsumMismatch"
    by simp
  from e a p c r i d b show ?thesis by blast
qed

text \<open>
  With bytes after the trailer the two regions differ. The first input is a container
  with its right checksum and one more byte: the checksum-mismatch error is reported,
  although the checksum of header and cell data is the trailer. The second has a wrong
  trailer, and eight more bytes that give all bytes but the last four the checksum
  \<open>09 09 09 09\<close>: the error reported is that of the bytes left over.
\<close>

theorem crc32c_region_counterexample:
  "crc32c_castagnoli [0xB5, 0xEE, 0x9C, 0x72, 0x41, 1, 1, 1, 0, 2, 0, 0, 0] =
     [0x4C, 0xAC, 0xB9, 0xCD] \<and>
   parseBocHeader crc32c_castagnoli
     [0xB5, 0xEE, 0x9C, 0x72, 0x41, 1, 1, 1, 0, 2, 0, 0, 0, 0x4C, 0xAC, 0xB9, 0xCD, 0xFF] =
     Inl Crc32cHashsumMismatch \<and>
   parseBocHeader crc32c_castagnoli
     [0xB5, 0xEE, 0x9C, 0x72, 0x41, 1, 1, 1, 0, 2, 0, 0, 0, 0x09, 0x09, 0x09, 0x09,
      0x23, 0xFC, 0xD8, 0xEB, 0, 0, 0, 0] =
     Inl TooMuchBytes"
proof -
  have a: "crc32c_castagnoli [0xB5, 0xEE, 0x9C, 0x72, 0x41, 1, 1, 1, 0, 2, 0, 0, 0] =
     [0x4C, 0xAC, 0xB9, 0xCD]"
    by (simp add: crc_defs)
  have b: "crc32c_castagnoli [0xB5, 0xEE, 0x9C, 0x72, 0x41, 1, 1, 1, 0, 2, 0, 0, 0, 0x4C] =
     [0xFD, 0xEA, 0xB0, 0x52]"
    by (simp add: crc_defs)
  have c: "crc32c_castagnoli [0xB5, 0xEE, 0x9C, 0x72, 0x41, 1, 1, 1, 0, 2, 0, 0, 0,
      0x09, 0x09, 0x09, 0x09, 0x23, 0xFC, 0xD8, 0xEB] = [0x09, 0x09, 0x09, 0x09]"
    by (simp add: crc_defs)
  have d: "parseBocHeader crc32c_castagnoli
     [0xB5, 0xEE, 0x9C, 0x72, 0x41, 1, 1, 1, 0, 2, 0, 0, 0, 0x4C, 0xAC, 0xB9, 0xCD, 0xFF] =
     Inl Crc32cHashsumMismatch"
    by (simp add: parse_defs Let_def b)
  have e: "parseBocHeader crc32c_castagnoli
     [0xB5, 0xEE, 0x9C, 0x72, 0x41, 1, 1, 1, 0, 2, 0, 0, 0, 0x09, 0x09, 0x09, 0x09,
      0x23, 0xFC, 0xD8, 0xEB, 0, 0, 0, 0] = Inl TooMuchBytes"
    by (simp add: parse_defs Let_def c)
  from a d e show ?thesis by simp
qed

section \<open>Properties of the deserializer\<close>

lemma readCells_numeral [simp]:
  "readCells (numeral k) sz d = readCells (Suc (pred_numeral k)) sz d"
  by (simp add: numeral_eq_Suc)

lemmas deser_defs = deserializeBoc_def deserializeCellData_def readKind_def
  fromTopUppedArray_def subarray_to_def subarray_from_def rel_index_def

lemma readCells_length:
  "readCells n sz d = Inr (cells_array, refs_array) \<Longrightarrow>
     length cells_array = n \<and> length refs_array = n"
  by (induction n arbitrary: d cells_array refs_array)
     (auto split: sum.splits prod.splits)

lemma linkCells_length:
  "linkCells n cells_array refs_array = Inr linked \<Longrightarrow> length linked = length cells_array"
  by (induction n arbitrary: cells_array) (auto split: sum.splits)

lemma linkRefs_error: "linkRefs len ci c = Inl e \<Longrightarrow> e = TopologicalOrderIsBroken"
  by (induction c arbitrary: e) (auto split: if_splits sum.splits)

lemma linkRefs_backward:
  "\<exists>r \<in> set c. index_less r ci \<Longrightarrow> linkRefs len ci c = Inl TopologicalOrderIsBroken"
proof (induction c)
  case Nil
  then show ?case by simp
next
  case (Cons r c)
  show ?case
  proof (cases "index_less r ci")
    case True
    then show ?thesis by simp
  next
    case False
    with Cons.prems have "\<exists>r \<in> set c. index_less r ci" by simp
    with Cons.IH False show ?thesis by simp
  qed
qed

lemma linkCells_backward:
  "ci < n \<Longrightarrow> \<exists>r \<in> set (refs_array ! ci). index_less r ci \<Longrightarrow>
     linkCells n cells_array refs_array = Inl TopologicalOrderIsBroken"
proof (induction n arbitrary: cells_array)
  case 0
  then show ?case by simp
next
  case (Suc n)
  show ?case
  proof (cases "linkRefs (length cells_array) n (refs_array ! n)")
    case (Inl e)
    with linkRefs_error [OF Inl] show ?thesis by simp
  next
    case (Inr refs)
    have "ci \<noteq> n"
    proof
      assume "ci = n"
      with Suc.prems linkRefs_backward [of "refs_array ! n" n "length cells_array"] Inr
      show False by simp
    qed
    with Suc.prems have "ci < n" by simp
    with Suc.IH Suc.prems Inr show ?thesis by simp
  qed
qed

text \<open>
  The part of C1 that the code does enforce: a record at position \<open>ci\<close> with a reference
  index strictly below \<open>ci\<close> makes \<open>deserializeBoc\<close> fail with the topological-order error.
\<close>

lemma deserializeBoc_rejects_backward_reference:
  assumes "parseBocHeader crc32c serializedBoc = Inr header"
    and "readCells (to_index (cells_num header)) (size_bytes header) (cells_data header) =
           Inr (cells_array, refs_array)"
    and "ci < to_index (cells_num header)"
    and "r < ci"
    and "Num r \<in> set (refs_array ! ci)"
  shows "deserializeBoc crc32c serializedBoc = Inl TopologicalOrderIsBroken"
proof -
  from assms(4,5) have "\<exists>x \<in> set (refs_array ! ci). index_less x ci"
    by (intro bexI [of _ "Num r"]) simp_all
  from linkCells_backward [OF assms(3) this] assms(1,2) show ?thesis
    by (simp add: deserializeBoc_def)
qed

text \<open>
  C1 (topological rejection). The linking pass tests \<^verbatim>\<open>r < ci\<close>, so a record that
  refers to its own position is not rejected: the one-cell container below, whose cell 0
  has the reference index 0, is accepted, and the cell returned refers to itself.
\<close>

theorem deserializeBoc_accepts_self_reference:
  "deserializeBoc crc32c [0xB5, 0xEE, 0x9C, 0x72, 1, 1, 1, 1, 0, 3, 0, 1, 0, 0] =
     Inr ([\<lparr> obj_kind = ordinary, obj_bits = [], obj_refs = [cell_ref 0] \<rparr>], [cell_ref 0])"
  by (simp add: deser_defs parse_defs Let_def)

text \<open>
  C10 (root index out of range). When the header parses, the records decode and the
  linking pass succeeds, \<open>deserializeBoc\<close> succeeds whatever the root indices are, and the
  root returned for an index \<open>r\<close> that is not below the number of cells is
  \<^verbatim>\<open>undefined\<close>, not a cell.
\<close>

theorem deserializeBoc_root_out_of_range:
  assumes "parseBocHeader crc32c serializedBoc = Inr header"
    and "readCells (to_index (cells_num header)) (size_bytes header) (cells_data header) =
           Inr (cells_array, refs_array)"
    and "linkCells (to_index (cells_num header)) cells_array refs_array = Inr linked"
  shows "\<exists>root_cells. deserializeBoc crc32c serializedBoc = Inr (linked, root_cells) \<and>
           length root_cells = length (root_list header) \<and>
           (\<forall>k r. k < length (root_list header) \<and> root_list header ! k = Num r \<and>
                  to_index (cells_num header) \<le> r \<longrightarrow> root_cells ! k = undefined_ref)"
proof -
  from readCells_length [OF assms(2)] linkCells_length [OF assms(3)]
  have len: "length linked = to_index (cells_num header)" by simp
  let ?roots = "map (cell_at (length linked)) (root_list header)"
  from assms have d: "deserializeBoc crc32c serializedBoc = Inr (linked, ?roots)"
    by (simp add: deserializeBoc_def)
  have u: "\<forall>k r. k < length (root_list header) \<and> root_list header ! k = Num r \<and>
                  to_index (cells_num header) \<le> r \<longrightarrow> ?roots ! k = undefined_ref"
    using len by auto
  show ?thesis
  proof (intro exI conjI)
    show "deserializeBoc crc32c serializedBoc = Inr (linked, ?roots)" by (fact d)
    show "length ?roots = length (root_list header)" by simp
    show "\<forall>k r. k < length (root_list header) \<and> root_list header ! k = Num r \<and>
                  to_index (cells_num header) \<le> r \<longrightarrow> ?roots ! k = undefined_ref" by (fact u)
  qed
qed

theorem deserializeBoc_root_out_of_range_witness:
  "parseBocHeader (\<lambda>_. []) [0xB5, 0xEE, 0x9C, 0x72, 1, 1, 1, 1, 0, 2, 5, 0, 0] =
     Inr \<lparr> has_idx = False, hash_crc32 = False, has_cache_bits = False, flags = 0,
           size_bytes = 1, off_bytes = 1, cells_num = Num 1, roots_num = Num 1,
           absent_num = Num 0, tot_cells_size = Num 2,
           root_list = [Num 5], index = None, cells_data = [0, 0] \<rparr> \<and>
   (\<exists>root_cells.
      deserializeBoc (\<lambda>_. []) [0xB5, 0xEE, 0x9C, 0x72, 1, 1, 1, 1, 0, 2, 5, 0, 0] =
        Inr ([\<lparr> obj_kind = ordinary, obj_bits = [], obj_refs = [] \<rparr>], root_cells) \<and>
      length root_cells = 1 \<and> root_cells ! 0 = undefined_ref)"
proof -
  let ?inp = "[0xB5, 0xEE, 0x9C, 0x72, 1, 1, 1, 1, 0, 2, 5, 0, 0] :: Buffer"
  let ?h = "\<lparr> has_idx = False, hash_crc32 = False, has_cache_bits = False, flags = 0,
           size_bytes = 1, off_bytes = 1, cells_num = Num 1, roots_num = Num 1,
           absent_num = Num 0, tot_cells_size = Num 2,
           root_list = [Num 5], index = None, cells_data = [0, 0] \<rparr>"
  let ?c = "\<lparr> obj_kind = ordinary, obj_bits = [], obj_refs = [] \<rparr>"
  have p: "parseBocHeader (\<lambda>_. []) ?inp = Inr ?h"
    by (simp add: parse_defs Let_def)
  have r: "readCells (to_index (cells_num ?h)) (size_bytes ?h) (cells_data ?h) = Inr ([?c], [[]])"
    by (simp add: deser_defs Let_def)
  have l: "linkCells (to_index (cells_num ?h)) [?c] [[]] = Inr [?c]"
    by simp
  from deserializeBoc_root_out_of_range [OF p r l] obtain root_cells where
    d: "deserializeBoc (\<lambda>_. []) ?inp = Inr ([?c], root_cells)" and
    n: "length root_cells = length (root_list ?h)" and
    u: "\<forall>k r. k < length (root_list ?h) \<and> root_list ?h ! k = Num r \<and>
                  to_index (cells_num ?h) \<le> r \<longrightarrow> root_cells ! k = undefined_ref"
    by blast
  from u have "root_cells ! 0 = undefined_ref" by simp
  with p d n show ?thesis by simp
qed

section \<open>Properties of the hash and depth engine\<close>

lemma subcells_self: "c \<in> subcells c"
  by (cases c) simp

lemma subcells_refs: "x \<in> set (refs c) \<Longrightarrow> subcells x \<subseteq> subcells c"
  by (cases c) auto

lemma subcells_trans: "x \<in> subcells c \<Longrightarrow> subcells x \<subseteq> subcells c"
proof (induction c arbitrary: x)
  case (Cell i k b rs)
  then show ?case by (cases x) fastforce
qed

lemma cache_ok_enter:
  assumes "cache_ok sha U s" and "cacheContext s = None"
  shows "cache_ok sha U (s\<lparr> cacheContext := Some (symbols s), symbols := Suc (symbols s) \<rparr>)"
  using assms by (auto simp: cache_ok_def wf_context_def emptyCache_def)

lemma cache_ok_leave:
  assumes "cache_ok sha U s"
  shows "cache_ok sha U (s\<lparr> cacheContext := None \<rparr>)"
  using assms by (auto simp: cache_ok_def wf_context_def)

lemma cache_ok_set_maxDepth:
  assumes ok: "cache_ok sha U s" and k: "cacheContext s = Some k"
    and c: "c \<in> subcells U" and U: "consistent U"
  shows "cache_ok sha U (set_maxDepth (ident c, k) (depth c) s)"
proof -
  from ok k have "k < symbols s" by (simp add: cache_ok_def wf_context_def)
  moreover have "x = c" if "x \<in> subcells U" "ident x = ident c" for x
    using that c U by (auto simp: consistent_def)
  ultimately show ?thesis
    using ok k by (auto simp: cache_ok_def wf_context_def set_maxDepth_def)
qed

lemma cache_ok_set_hash:
  assumes ok: "cache_ok sha U s" and k: "cacheContext s = Some k"
    and c: "c \<in> subcells U" and U: "consistent U"
  shows "cache_ok sha U (set_hash (ident c, k) (cellHash sha c) s)"
proof -
  from ok k have "k < symbols s" by (simp add: cache_ok_def wf_context_def)
  moreover have "x = c" if "x \<in> subcells U" "ident x = ident c" for x
    using that c U by (auto simp: consistent_def)
  ultimately show ?thesis
    using ok k by (auto simp: cache_ok_def wf_context_def set_hash_def)
qed

text \<open>
  What a call does, as a relation between the state before, the result and the state
  after: the result is \<open>v\<close>, the caches stay right and the context is the one before.
\<close>

definition returns :: "(Buffer \<Rightarrow> Buffer) \<Rightarrow> Cell \<Rightarrow> Context \<Rightarrow> 'a \<times> Context \<Rightarrow> 'a \<Rightarrow> bool" where
  "returns sha U s res v =
     (fst res = v \<and> cache_ok sha U (snd res) \<and> cacheContext (snd res) = cacheContext s)"

lemma inCache_returns:
  assumes ok: "cache_ok sha U s"
    and h: "\<And>k t. cache_ok sha U t \<Longrightarrow> cacheContext t = Some k \<Longrightarrow>
               returns sha U t (handler (ident cell, k) t) v"
  shows "returns sha U s (inCache cell handler s) v"
proof (cases "cacheContext s")
  case None
  let ?s1 = "s\<lparr> cacheContext := Some (symbols s), symbols := Suc (symbols s) \<rparr>"
  from cache_ok_enter [OF ok None] have "cache_ok sha U ?s1" .
  from h [OF this, of "symbols s"]
  have r: "returns sha U ?s1 (handler (ident cell, symbols s) ?s1) v" by simp
  obtain r' s2 where e: "handler (ident cell, symbols s) ?s1 = (r', s2)"
    by (cases "handler (ident cell, symbols s) ?s1")
  with r have "r' = v" "cache_ok sha U s2" by (simp_all add: returns_def)
  with None e cache_ok_leave [of sha U s2] show ?thesis
    by (simp add: inCache_def returns_def)
next
  case (Some k)
  from h [OF ok Some] Some show ?thesis
    by (simp add: inCache_def returns_def split: prod.split)
qed

lemma getMaxDepth_returns_aux:
  "(consistent U \<longrightarrow> c \<in> subcells U \<longrightarrow> cache_ok sha U s \<longrightarrow>
      returns sha U s (getMaxDepth c s) (depth c)) \<and> True"
  "(consistent U \<longrightarrow> set cs \<subseteq> subcells U \<longrightarrow> cache_ok sha U s \<longrightarrow>
      returns sha U s (maxDepthLoop cs m s) (fold max (map depth cs) m)) \<and> True"
proof (induction c s and cs m s rule: getMaxDepth_maxDepthLoop.induct)
  case (1 i k b rs s)
  let ?c = "Cell i k b rs"
  show ?case
  proof (intro conjI impI TrueI)
    assume U: "consistent U" and c: "?c \<in> subcells U" and ok: "cache_ok sha U s"
    from subcells_trans [OF c] subcells_self have rs: "set rs \<subseteq> subcells U" by fastforce
    show "returns sha U s (getMaxDepth ?c s) (depth ?c)"
      unfolding getMaxDepth.simps
    proof (rule inCache_returns [OF ok])
      fix k' t
      assume okt: "cache_ok sha U t" and kt: "cacheContext t = Some k'"
      let ?cache = "(ident ?c, k')"
      show "returns sha U t
              (case maxDepth (slots t ?cache) of
                 None \<Rightarrow>
                   let (maxDepth', s1) =
                         if 0 < length rs
                         then let (m, s') = maxDepthLoop rs 0 t in (m + 1, s')
                         else (0, t)
                   in (maxDepth', set_maxDepth ?cache maxDepth' s1)
               | Some d \<Rightarrow> (d, t))
              (depth ?c)"
      proof (cases "maxDepth (slots t ?cache)")
        case (Some d)
        with okt kt c have "d = depth ?c" by (auto simp: cache_ok_def)
        with Some okt show ?thesis by (simp add: returns_def)
      next
        case None
        show ?thesis
        proof (cases "rs = []")
          case True
          with cache_ok_set_maxDepth [OF okt kt c U] None kt show ?thesis
            by (simp add: returns_def set_maxDepth_def)
        next
          case False
          with "1.IH" [OF None] U rs okt
          have r: "returns sha U t (maxDepthLoop rs 0 t) (fold max (map depth rs) 0)" by simp
          obtain m s' where e: "maxDepthLoop rs 0 t = (m, s')" by (cases "maxDepthLoop rs 0 t")
          with r kt have m: "m = fold max (map depth rs) 0" and oks: "cache_ok sha U s'"
            and ks: "cacheContext s' = Some k'" by (simp_all add: returns_def)
          from cache_ok_set_maxDepth [OF oks ks c U] m False
          have "cache_ok sha U (set_maxDepth ?cache (m + 1) s')" by simp
          with None False e m ks kt show ?thesis
            by (simp add: returns_def set_maxDepth_def)
        qed
      qed
    qed
  qed
next
  case (2 m s)
  then show ?case by (simp add: returns_def)
next
  case (3 i rs m s)
  show ?case
  proof (intro conjI impI TrueI)
    assume U: "consistent U" and sub: "set (i # rs) \<subseteq> subcells U" and ok: "cache_ok sha U s"
    obtain d s1 where e1: "getMaxDepth i s = (d, s1)" by (cases "getMaxDepth i s")
    from "3.IH"(1) U sub ok e1 have d: "d = depth i" and ok1: "cache_ok sha U s1"
      and k1: "cacheContext s1 = cacheContext s" by (simp_all add: returns_def)
    show "returns sha U s (maxDepthLoop (i # rs) m s) (fold max (map depth (i # rs)) m)"
    proof (cases "m < d")
      case True
      obtain d' s2 where e2: "getMaxDepth i s1 = (d', s2)" by (cases "getMaxDepth i s1")
      from "3.IH"(2) [OF e1 [symmetric] refl True] U sub ok1 e2
      have d': "d' = depth i" and ok2: "cache_ok sha U s2"
        and k2: "cacheContext s2 = cacheContext s1" by (simp_all add: returns_def)
      from "3.IH"(3) [OF e1 [symmetric] refl True e2 [symmetric] refl] U sub ok2
      have "returns sha U s2 (maxDepthLoop rs d' s2) (fold max (map depth rs) d')" by simp
      with e1 e2 True d d' k1 k2 show ?thesis by (simp add: returns_def max_def)
    next
      case False
      from "3.IH"(4) [OF e1 [symmetric] refl False] U sub ok1
      have "returns sha U s1 (maxDepthLoop rs m s1) (fold max (map depth rs) m)" by simp
      with e1 False d k1 show ?thesis by (simp add: returns_def max_def)
    qed
  qed
qed

lemma getMaxDepth_returns:
  "consistent U \<Longrightarrow> c \<in> subcells U \<Longrightarrow> cache_ok sha U s \<Longrightarrow>
     returns sha U s (getMaxDepth c s) (depth c)"
  using getMaxDepth_returns_aux(1) by blast

lemma cellHash_cellRepr: "cellHash sha c = sha (cellRepr sha c)"
  by (cases c) (simp add: cellRepr_def)

lemma reprDepths_returns:
  assumes "consistent U" and "set cs \<subseteq> subcells U" and "cache_ok sha U s"
  shows "\<exists>s'. reprDepths cs repr cur s = (fillDepths (map depth cs) repr cur, cur + 2 * length cs, s') \<and>
              cache_ok sha U s' \<and> cacheContext s' = cacheContext s"
  using assms
proof (induction cs arbitrary: repr cur s)
  case Nil
  then show ?case by simp
next
  case (Cons c cs)
  obtain md s1 where e: "getMaxDepth c s = (md, s1)" by (cases "getMaxDepth c s")
  with getMaxDepth_returns [of U c sha s] Cons.prems
  have md: "md = depth c" and ok1: "cache_ok sha U s1" and k1: "cacheContext s1 = cacheContext s"
    by (simp_all add: returns_def)
  from Cons.prems have "set cs \<subseteq> subcells U" by simp
  from Cons.IH [OF Cons.prems(1) this ok1,
      of "repr[cur := of_nat (md div 256), cur + 1 := of_nat (md mod 256)]" "cur + 2"]
  show ?case using e md k1 by (auto simp: Let_def)
qed

lemma hashCell_returns_aux:
  "(consistent U \<longrightarrow> c \<in> subcells U \<longrightarrow> cache_ok sha U s \<longrightarrow>
      returns sha U s (hashCell sha c s) (cellHash sha c)) \<and> True"
  "(consistent U \<longrightarrow> c \<in> subcells U \<longrightarrow> cache_ok sha U s \<longrightarrow>
      returns sha U s (getRepr sha c s) (cellRepr sha c)) \<and> True"
  "(consistent U \<longrightarrow> set cs \<subseteq> subcells U \<longrightarrow> cache_ok sha U s \<longrightarrow>
      returns sha U s (reprHashes sha cs repr cur s)
        (fillHashes (map (cellHash sha) cs) repr cur)) \<and> True"
proof (induction sha c s and sha c s and sha cs repr cur s rule: hashCell_getRepr_reprHashes.induct)
  case (1 sha i k b rs s)
  let ?c = "Cell i k b rs"
  show ?case
  proof (intro conjI impI TrueI)
    assume U: "consistent U" and c: "?c \<in> subcells U" and ok: "cache_ok sha U s"
    show "returns sha U s (hashCell sha ?c s) (cellHash sha ?c)"
      unfolding hashCell.simps
    proof (rule inCache_returns [OF ok])
      fix k' t
      assume okt: "cache_ok sha U t" and kt: "cacheContext t = Some k'"
      let ?cache = "(ident ?c, k')"
      show "returns sha U t
              (case hash (slots t ?cache) of
                 None \<Rightarrow>
                   let (repr, s1) = getRepr sha ?c t; r = sha repr
                   in (r, set_hash ?cache r s1)
               | Some h \<Rightarrow> (h, t))
              (cellHash sha ?c)"
      proof (cases "hash (slots t ?cache)")
        case (Some h)
        with okt kt c have "h = cellHash sha ?c" by (auto simp: cache_ok_def)
        with Some okt show ?thesis by (simp add: returns_def)
      next
        case None
        from "1.IH" [OF None] U c okt
        have r: "returns sha U t (getRepr sha ?c t) (cellRepr sha ?c)" by simp
        obtain repr s1 where e: "getRepr sha ?c t = (repr, s1)" by (cases "getRepr sha ?c t")
        with r kt have m: "repr = cellRepr sha ?c" and oks: "cache_ok sha U s1"
          and ks: "cacheContext s1 = Some k'" by (simp_all add: returns_def)
        from cache_ok_set_hash [OF oks ks c U]
        have "cache_ok sha U (set_hash ?cache (cellHash sha ?c) s1)" by simp
        with None e m ks kt show ?thesis
          by (simp add: returns_def set_hash_def cellHash_cellRepr Let_def
              del: cellHash.simps getRepr.simps)
      qed
    qed
  qed
next
  case (2 sha i k b rs s)
  let ?c = "Cell i k b rs"
  show ?case
  proof (intro conjI impI TrueI)
    assume U: "consistent U" and c: "?c \<in> subcells U" and ok: "cache_ok sha U s"
    from subcells_trans [OF c] subcells_self have rs: "set rs \<subseteq> subcells U" by fastforce
    let ?repr3 = "writeTopUppedArray b
                ((replicate (2 + getTopUppedLength b + (2 + 32) * length rs) 0)
                   [0 := of_nat (getRefsDescriptor ?c),
                    1 := of_nat (getBitsDescriptor ?c)]) 2"
    from reprDepths_returns [OF U rs ok, of ?repr3 "2 + getTopUppedLength b"]
    obtain s1 where e: "reprDepths rs ?repr3 (2 + getTopUppedLength b) s =
        (fillDepths (map depth rs) ?repr3 (2 + getTopUppedLength b),
         2 + getTopUppedLength b + 2 * length rs, s1)"
      and ok1: "cache_ok sha U s1" and k1: "cacheContext s1 = cacheContext s" by blast
    from "2.IH" [OF refl refl refl refl refl refl refl e [symmetric] refl] U rs ok1
    have "returns sha U s1
            (reprHashes sha rs (fillDepths (map depth rs) ?repr3 (2 + getTopUppedLength b))
               (2 + getTopUppedLength b + 2 * length rs) s1)
            (cellRepr sha ?c)"
      by (simp add: cellRepr_def)
    with e k1 show "returns sha U s (getRepr sha ?c s) (cellRepr sha ?c)"
      by (simp add: returns_def Let_def)
  qed
next
  case (3 sha repr cur s)
  then show ?case by (simp add: returns_def)
next
  case (4 sha c cs repr cur s)
  show ?case
  proof (intro conjI impI TrueI)
    assume U: "consistent U" and sub: "set (c # cs) \<subseteq> subcells U" and ok: "cache_ok sha U s"
    obtain h s1 where e1: "hashCell sha c s = (h, s1)" by (cases "hashCell sha c s")
    from "4.IH"(1) U sub ok e1 have h: "h = cellHash sha c" and ok1: "cache_ok sha U s1"
      and k1: "cacheContext s1 = cacheContext s" by (simp_all add: returns_def)
    from "4.IH"(2) [OF e1 [symmetric] refl] U sub ok1
    have "returns sha U s1 (reprHashes sha cs (copy h repr cur) (cur + 32) s1)
            (fillHashes (map (cellHash sha) cs) (copy h repr cur) (cur + 32))" by simp
    with e1 h k1
    show "returns sha U s (reprHashes sha (c # cs) repr cur s)
            (fillHashes (map (cellHash sha) (c # cs)) repr cur)"
      by (simp add: returns_def)
  qed
qed

lemma hashCell_returns:
  "consistent U \<Longrightarrow> c \<in> subcells U \<Longrightarrow> cache_ok sha U s \<Longrightarrow>
     returns sha U s (hashCell sha c s) (cellHash sha c)"
  using hashCell_returns_aux(1) by blast

section \<open>Properties of the serializer\<close>

lemma writeNumber_Suc_eq:
  "k = Suc j \<Longrightarrow> writeNumber b start n k =
     writeNumber (b[start := of_nat ((n mod 2 ^ 32) div 2 ^ ((j * 8) mod 32))]) (start + 1) n j"
  by simp

lemma writeNumber_numeral [simp]:
  "writeNumber b start n (numeral k) =
     writeNumber (b[start := of_nat ((n mod 2 ^ 32) div 2 ^ ((pred_numeral k * 8) mod 32))])
       (start + 1) n (pred_numeral k)"
  by (rule writeNumber_Suc_eq) (rule numeral_eq_Suc)

lemma binaryLength_small [simp]:
  "binaryLength 0 = 1" "binaryLength (Suc 0) = 1" "binaryLength 2 = 2" "binaryLength 3 = 2"
  by (simp_all add: binaryLength.simps [of 0] binaryLength.simps [of "Suc 0"]
       binaryLength.simps [of 2] binaryLength.simps [of 3])

lemma binaryLength_Suc_Suc_0 [simp]: "binaryLength (Suc (Suc 0)) = 2"
  using binaryLength_small(3) by (simp add: numeral_2_eq_2)

lemma replicate_numeral_unfold: "replicate (numeral k) x = x # replicate (pred_numeral k) x"
  by (simp add: numeral_eq_Suc)

lemma list_update_numeral_unfold:
  "(x # xs)[numeral k := v] = x # xs[pred_numeral k := v]"
  by (simp add: numeral_eq_Suc)

lemmas ser_defs = serializeBody_def serializeForBoc_def calcCellSerializedSize_def
  getRefsDescriptor_def getBitsDescriptor_def getMaxLevel_def isExotic_def cursor_def
  getTopUppedLength_def getTopUppedArray_def writeTopUppedArray_def copy_def
  reachBocMagicPrefix_def replicate_numeral_unfold list_update_numeral_unfold

section \<open>Depth law, determinism and cache isolation\<close>

lemma idle_cache_ok: "idle s \<Longrightarrow> cache_ok sha U s"
  by (simp add: idle_def cache_ok_def)

lemma returns_idle: "returns sha U s res v \<Longrightarrow> idle s \<Longrightarrow> idle (snd res)"
  by (simp add: returns_def idle_def cache_ok_def)

lemma idle_initialContext: "idle initialContext"
  by (simp add: idle_def wf_context_def initialContext_def)

lemma getMaxDepth_idle:
  assumes "consistent c" and "idle s"
  shows "fst (getMaxDepth c s) = depth c" and "idle (snd (getMaxDepth c s))"
proof -
  from getMaxDepth_returns [OF assms(1) subcells_self idle_cache_ok [OF assms(2)]]
  have r: "returns sha c s (getMaxDepth c s) (depth c)" for sha .
  from r show "fst (getMaxDepth c s) = depth c" by (simp add: returns_def)
  from returns_idle [OF r assms(2)] show "idle (snd (getMaxDepth c s))" .
qed

lemma hashCell_idle:
  assumes "consistent c" and "idle s"
  shows "fst (hashCell sha c s) = cellHash sha c" and "idle (snd (hashCell sha c s))"
proof -
  from hashCell_returns [OF assms(1) subcells_self idle_cache_ok [OF assms(2)]]
  have r: "returns sha c s (hashCell sha c s) (cellHash sha c)" .
  from r show "fst (hashCell sha c s) = cellHash sha c" by (simp add: returns_def)
  from returns_idle [OF r assms(2)] show "idle (snd (hashCell sha c s))" .
qed

lemma serializeToBoc_idle:
  assumes "idle s"
  shows "idle (snd (serializeToBoc ts crc c hi hc hb fl s))"
proof -
  have "returns (\<lambda>x. x) c s (serializeToBoc ts crc c hi hc hb fl s)
          (serializeBody ts crc c hi hc hb fl)"
    unfolding serializeToBoc_def
    by (rule inCache_returns [OF idle_cache_ok [OF assms]]) (simp add: returns_def)
  from returns_idle [OF this assms] show ?thesis .
qed

lemma run_calls_idle:
  "idle s \<Longrightarrow> \<forall>x \<in> set calls. consistent (callee x) \<Longrightarrow> idle (run_calls sha ts crc calls s)"
proof (induction calls arbitrary: s)
  case Nil
  then show ?case by simp
next
  case (Cons x xs)
  from Cons.prems have "idle (run_call sha ts crc x s)"
    by (cases x) (simp_all add: getMaxDepth_idle hashCell_idle serializeToBoc_idle)
  with Cons show ?case by simp
qed

lemma consistent_refs: "consistent c \<Longrightarrow> x \<in> set (refs c) \<Longrightarrow> consistent x"
  using subcells_refs [of x c] by (auto simp: consistent_def)

lemma fold_max_Max: "xs \<noteq> [] \<Longrightarrow> fold max xs (0::nat) = Max (set xs)"
proof -
  assume ne: "xs \<noteq> []"
  have "fold max xs (0::nat) = Max (set (0 # xs))" by (rule Max.set_eq_fold [symmetric])
  also have "\<dots> = max 0 (Max (set xs))" using ne by simp
  finally show ?thesis by simp
qed

lemma depth_law:
  "(depth c = 0 \<longleftrightarrow> refs c = []) \<and>
   (refs c \<noteq> [] \<longrightarrow> depth c = 1 + Max (depth ` set (refs c)))"
  by (cases c) (simp add: fold_max_Max)

text \<open>
  C6 (depth law). For a top-level call on a finite acyclic graph, \<open>getMaxDepth\<close> is 0
  exactly for a cell without refs, and for a cell with refs it is one more than the
  greatest \<open>getMaxDepth\<close> of its refs.
\<close>

theorem getMaxDepth_depth_law:
  assumes "consistent c" and "idle s"
  shows "(fst (getMaxDepth c s) = 0 \<longleftrightarrow> refs c = []) \<and>
         (refs c \<noteq> [] \<longrightarrow>
            fst (getMaxDepth c s) = 1 + Max ((\<lambda>x. fst (getMaxDepth x s)) ` set (refs c)))"
proof -
  have "(\<lambda>x. fst (getMaxDepth x s)) ` set (refs c) = depth ` set (refs c)"
    using assms by (intro image_cong refl) (simp add: getMaxDepth_idle consistent_refs)
  with depth_law [of c] getMaxDepth_idle(1) [OF assms] show ?thesis by simp
qed

theorem getMaxDepth_depth_law_witness:
  "consistent (Cell 0 ordinary [] [Cell 1 ordinary [] [], Cell 2 ordinary [] [Cell 1 ordinary [] []]]) \<and>
   idle initialContext \<and>
   fst (getMaxDepth (Cell 1 ordinary [] []) initialContext) = 0 \<and>
   fst (getMaxDepth (Cell 2 ordinary [] [Cell 1 ordinary [] []]) initialContext) = 1 \<and>
   fst (getMaxDepth (Cell 0 ordinary [] [Cell 1 ordinary [] [], Cell 2 ordinary [] [Cell 1 ordinary [] []]])
      initialContext) = 2"
proof -
  let ?a = "Cell 1 ordinary [] []"
  let ?b = "Cell 2 ordinary [] [?a]"
  let ?c = "Cell 0 ordinary [] [?a, ?b]"
  have c: "consistent ?c" by (auto simp: consistent_def)
  have b: "consistent ?b" by (auto simp: consistent_def)
  have a: "consistent ?a" by (auto simp: consistent_def)
  note i = idle_initialContext
  from getMaxDepth_depth_law [OF a i] have da: "fst (getMaxDepth ?a initialContext) = 0" by simp
  from getMaxDepth_depth_law [OF b i] da have db: "fst (getMaxDepth ?b initialContext) = 1" by simp
  from getMaxDepth_depth_law [OF c i] da db have "fst (getMaxDepth ?c initialContext) = 2" by simp
  with c i da db show ?thesis by simp
qed

section \<open>What hashCell digests\<close>













section \<open>Determinism and cache isolation of hashCell\<close>

lemma idle_fresh: "idle s \<Longrightarrow> slots s (i, symbols s) = emptyCache"
  by (simp add: idle_def wf_context_def)

text \<open>
  Top-level calls on cell objects do not throw and leave no context behind: after any
  sequence of them, made from the initial state of the module, \<open>hashCell\<close> of a cell
  gives what it gives in the initial state, and so does a second call right after; a
  cell \<open>c'\<close> hashed after \<open>c\<close>, which may be the object \<open>c\<close> with another payload or other
  refs, gets the hash of its own content.
\<close>

lemma hashCell_calls_on_cells:
  assumes "consistent c" and "consistent c'" and "\<forall>x \<in> set calls. consistent (callee x)"
  shows "let s = run_calls sha256_sync topologicalSort crc32c calls initialContext;
             s1 = snd (hashCell sha256_sync c s)
         in fst (hashCell sha256_sync c s) = fst (hashCell sha256_sync c initialContext) \<and>
            fst (hashCell sha256_sync c s1) = fst (hashCell sha256_sync c s) \<and>
            cacheContext s = None \<and> (\<forall>i. slots s (i, symbols s) = emptyCache) \<and>
            cacheContext s1 = None \<and> (\<forall>i. slots s1 (i, symbols s1) = emptyCache) \<and>
            fst (hashCell sha256_sync c' s1) = fst (hashCell sha256_sync c' initialContext)"
proof -
  define s where "s = run_calls sha256_sync topologicalSort crc32c calls initialContext"
  define s1 where "s1 = snd (hashCell sha256_sync c s)"
  have s: "idle s"
    unfolding s_def by (rule run_calls_idle [OF idle_initialContext assms(3)])
  have s1: "idle s1"
    unfolding s1_def by (rule hashCell_idle(2) [OF assms(1) s])
  note i = idle_initialContext
  have "fst (hashCell sha256_sync c s) = fst (hashCell sha256_sync c initialContext)"
    by (simp only: hashCell_idle(1) [OF assms(1) s] hashCell_idle(1) [OF assms(1) i])
  moreover have "fst (hashCell sha256_sync c s1) = fst (hashCell sha256_sync c s)"
    by (simp only: hashCell_idle(1) [OF assms(1) s] hashCell_idle(1) [OF assms(1) s1])
  moreover have "fst (hashCell sha256_sync c' s1) = fst (hashCell sha256_sync c' initialContext)"
    by (simp only: hashCell_idle(1) [OF assms(2) s1] hashCell_idle(1) [OF assms(2) i])
  moreover from s s1 have "cacheContext s = None" "cacheContext s1 = None"
    by (simp_all add: idle_def)
  moreover from s s1 have "\<forall>i. slots s (i, symbols s) = emptyCache"
    "\<forall>i. slots s1 (i, symbols s1) = emptyCache"
    by (simp_all add: idle_fresh)
  ultimately show ?thesis
    unfolding Let_def s_def [symmetric] s1_def [symmetric] by blast
qed

text \<open>The states and results of the calls after \<open>hashCell\<close> has thrown at top level.\<close>

lemma stuck_context:
  "snd (hashCell_of sha256_sync None initialContext) =
     \<lparr> cacheContext = Some 0, symbols = Suc 0, slots = (\<lambda>_. emptyCache) \<rparr>"
  by (simp add: hashCell_of_def inCache_undefined_def initialContext_def)

lemma stuck_first:
  "hashCell sha256_sync (Cell 0 ordinary [True] [])
     \<lparr> cacheContext = Some 0, symbols = Suc 0, slots = (\<lambda>_. emptyCache) \<rparr> =
   (sha256_sync [0, 1, 0xC0],
    \<lparr> cacheContext = Some 0, symbols = Suc 0,
      slots = (\<lambda>_. emptyCache)((0, 0) := \<lparr> hash = Some (sha256_sync [0, 1, 0xC0]), maxDepth = None \<rparr>) \<rparr>)"
  by (simp add: inCache_def emptyCache_def set_hash_def Let_def ser_defs byte_of_bits_def)

lemma stuck_second:
  "hashCell sha256_sync (Cell 0 ordinary [False] [])
    \<lparr> cacheContext = Some 0, symbols = Suc 0,
      slots = (\<lambda>_. emptyCache)((0, 0) := \<lparr> hash = Some (sha256_sync [0, 1, 0xC0]), maxDepth = None \<rparr>) \<rparr> =
   (sha256_sync [0, 1, 0xC0],
    \<lparr> cacheContext = Some 0, symbols = Suc 0,
      slots = (\<lambda>_. emptyCache)((0, 0) := \<lparr> hash = Some (sha256_sync [0, 1, 0xC0]), maxDepth = None \<rparr>) \<rparr>)"
  by (simp add: inCache_def)

lemma fresh_second:
  "fst (hashCell sha256_sync (Cell 0 ordinary [False] []) initialContext) = sha256_sync [0, 1, 0x40]"
  by (simp add: inCache_def initialContext_def emptyCache_def set_hash_def Let_def ser_defs byte_of_bits_def)

text \<open>
  C9 (determinism, cache isolation). \<open>hashCell\<close> of \<^verbatim>\<open>undefined\<close> in the initial state
  of the module throws and leaves the context that it created active. The calls that
  follow are made in that context: a cell with the payload \<open>1\<close> is hashed, and the same
  object with the payload \<open>0\<close> then gets the hash that was cached for the payload \<open>1\<close>,
  the digest of \<open>00 01 C0\<close>, where a call in the initial state gives the digest of
  \<open>00 01 40\<close>.
\<close>

theorem hashCell_stale_after_throw:
  "let s1 = snd (hashCell_of sha256_sync None initialContext);
       s2 = snd (hashCell_of sha256_sync (Some (Cell 0 ordinary [True] [])) s1)
   in fst (hashCell_of sha256_sync None initialContext) = Inl TypeError \<and>
      cacheContext s1 = Some 0 \<and>
      fst (hashCell_of sha256_sync (Some (Cell 0 ordinary [True] [])) s1) =
        Inr (sha256_sync [0, 1, 0xC0]) \<and>
      cacheContext s2 = Some 0 \<and>
      fst (hashCell_of sha256_sync (Some (Cell 0 ordinary [False] [])) s2) =
        Inr (sha256_sync [0, 1, 0xC0]) \<and>
      fst (hashCell_of sha256_sync (Some (Cell 0 ordinary [False] [])) initialContext) =
        Inr (sha256_sync [0, 1, 0x40])"
proof -
  have a: "fst (hashCell_of sha256_sync None initialContext) = Inl TypeError"
    by (simp add: hashCell_of_def inCache_undefined_def)
  have b: "hashCell_of sha256_sync (Some c) s =
      (Inr (fst (hashCell sha256_sync c s)), snd (hashCell sha256_sync c s))" for c s
    by (simp add: hashCell_of_def)
  show ?thesis
    unfolding Let_def stuck_context b stuck_first snd_conv fst_conv stuck_second
    using a fresh_second [of sha256_sync] by simp
qed

section \<open>The empty cell, and the flags of the header\<close>

lemma topologicalOrder_leaf:
  assumes "topologicalOrder (Cell i k b []) allCells"
  shows "allCells = [(Cell i k b [], [])]"
proof -
  from assms have ne: "allCells \<noteq> []"
    unfolding topologicalOrder_def by (elim conjE)
  from assms have root: "fst (allCells ! 0) = Cell i k b []"
    unfolding topologicalOrder_def by (elim conjE)
  from assms have all: "\<forall>i < length allCells.
         length (snd (allCells ! i)) = length (refs (fst (allCells ! i))) \<and>
         (\<forall>j < length (snd (allCells ! i)).
            i < snd (allCells ! i) ! j \<and> snd (allCells ! i) ! j < length allCells \<and>
            fst (allCells ! (snd (allCells ! i) ! j)) = refs (fst (allCells ! i)) ! j)"
    unfolding topologicalOrder_def by (elim conjE)
  from assms have par:
    "\<forall>i < length allCells. 0 < i \<longrightarrow> (\<exists>p < i. i \<in> set (snd (allCells ! p)))"
    unfolding topologicalOrder_def by (elim conjE)
  from ne have "0 < length allCells" by simp
  with all have "length (snd (allCells ! 0)) = length (refs (fst (allCells ! 0)))" by blast
  with root have nil: "snd (allCells ! 0) = []" by simp
  have "length allCells = 1"
  proof (rule ccontr)
    assume "length allCells \<noteq> 1"
    with ne have "1 < length allCells" by (cases allCells) auto
    with par have "\<exists>p < 1. 1 \<in> set (snd (allCells ! p))" by (elim allE [of _ 1]) simp
    then obtain p where "p < 1" and "1 \<in> set (snd (allCells ! p))" by blast
    with nil show False by simp
  qed
  then obtain x where "allCells = [x]" by (cases allCells) auto
  with root nil show ?thesis by (cases x) simp
qed

lemma fst_serializeToBoc:
  "fst (serializeToBoc ts crc c hi hc hb fl s) = serializeBody ts crc c hi hc hb fl"
  by (simp add: serializeToBoc_def inCache_def Let_def)

text \<open>
  C5 (the empty cell). With an ordinary cell that has no bits and no refs,
  \<open>serializeToBoc\<close> without index and without checksum returns 13 bytes, which is
  \<open>4 + 1 + 1 + 3 * s_bytes + offset_bytes + s_bytes + 2\<close> with \<open>s_bytes = offset_bytes = 1\<close>, and
  \<open>hashCell\<close> of the cell is the digest of the two bytes 0, 0.
\<close>

theorem serializeToBoc_empty_cell:
  assumes "topologicalOrder (Cell i ordinary [] []) (topologicalSort (Cell i ordinary [] []))"
    and "idle s"
  shows "fst (serializeToBoc topologicalSort crc32c (Cell i ordinary [] []) False False False 0 s) =
           [0xB5, 0xEE, 0x9C, 0x72, 1, 1, 1, 1, 0, 2, 0, 0, 0] \<and>
         length (fst (serializeToBoc topologicalSort crc32c (Cell i ordinary [] [])
                   False False False 0 s)) = 4 + 1 + 1 + 3 * 1 + 1 + 1 + 2 \<and>
         fst (hashCell sha256_sync (Cell i ordinary [] []) s) = sha256_sync [0, 0]"
proof -
  let ?c = "Cell i ordinary [] []"
  from topologicalOrder_leaf [OF assms(1)] have ts: "topologicalSort ?c = [(?c, [])]" .
  have b: "serializeBody topologicalSort crc32c ?c False False False 0 =
     [0xB5, 0xEE, 0x9C, 0x72, 1, 1, 1, 1, 0, 2, 0, 0, 0]"
    using ts by (simp add: ser_defs Let_def)
  have "consistent ?c" by (auto simp: consistent_def)
  from hashCell_idle(1) [OF this assms(2)]
  have "fst (hashCell sha256_sync ?c s) = sha256_sync [0, 0]"
    by (simp add: ser_defs)
  with b show ?thesis by (simp add: fst_serializeToBoc)
qed

theorem serializeToBoc_empty_cell_witness:
  "topologicalOrder (Cell 0 ordinary [] []) ((\<lambda>c. [(c, [])]) (Cell 0 ordinary [] [])) \<and>
   idle initialContext \<and>
   fst (serializeToBoc (\<lambda>c. [(c, [])]) (\<lambda>x. []) (Cell 0 ordinary [] [])
          False False False 0 initialContext) =
     [0xB5, 0xEE, 0x9C, 0x72, 1, 1, 1, 1, 0, 2, 0, 0, 0] \<and>
   fst (hashCell (\<lambda>x. x) (Cell 0 ordinary [] []) initialContext) = [0, 0]"
proof -
  have t: "topologicalOrder (Cell 0 ordinary [] []) ((\<lambda>c. [(c, [])]) (Cell 0 ordinary [] []))"
    by (simp add: topologicalOrder_def)
  from serializeToBoc_empty_cell [of 0 "\<lambda>c. [(c, [])]", OF t idle_initialContext,
      of "\<lambda>x. []" "\<lambda>x. x"] t idle_initialContext
  show ?thesis by simp
qed

text \<open>
  C8 (flags of the header). \<open>serializeToBoc\<close> writes \<open>flags << 3\<close> into bits 4 and 3 of the
  flag byte, and \<open>parseBocHeader\<close> computes \<open>(flags_byte & 16) * 2 + (flags_byte & 8)\<close>: the
  bits are masked and not shifted back, so the headers written with the flags 1, 2 and 3
  are read with the flags 8, 32 and 40. The other fields of the flag byte are read as
  written.
\<close>

theorem parseBocHeader_flags_not_inverse:
  "parseBocHeader (\<lambda>x. [])
     (fst (serializeToBoc (\<lambda>c. [(c, [])]) (\<lambda>x. []) (Cell 0 ordinary [] [])
             False False False 1 initialContext)) =
     Inr \<lparr> has_idx = False, hash_crc32 = False, has_cache_bits = False, flags = 8,
           size_bytes = 1, off_bytes = 1, cells_num = Num 1, roots_num = Num 1,
           absent_num = Num 0, tot_cells_size = Num 2,
           root_list = [Num 0], index = None, cells_data = [0, 0] \<rparr> \<and>
   parseBocHeader (\<lambda>x. [])
     (fst (serializeToBoc (\<lambda>c. [(c, [])]) (\<lambda>x. []) (Cell 0 ordinary [] [])
             False False False 2 initialContext)) =
     Inr \<lparr> has_idx = False, hash_crc32 = False, has_cache_bits = False, flags = 32,
           size_bytes = 1, off_bytes = 1, cells_num = Num 1, roots_num = Num 1,
           absent_num = Num 0, tot_cells_size = Num 2,
           root_list = [Num 0], index = None, cells_data = [0, 0] \<rparr> \<and>
   parseBocHeader (\<lambda>x. [])
     (fst (serializeToBoc (\<lambda>c. [(c, [])]) (\<lambda>x. []) (Cell 0 ordinary [] [])
             False False False 3 initialContext)) =
     Inr \<lparr> has_idx = False, hash_crc32 = False, has_cache_bits = False, flags = 40,
           size_bytes = 1, off_bytes = 1, cells_num = Num 1, roots_num = Num 1,
           absent_num = Num 0, tot_cells_size = Num 2,
           root_list = [Num 0], index = None, cells_data = [0, 0] \<rparr>"
proof -
  let ?ser = "\<lambda>f. serializeBody (\<lambda>c. [(c, [])]) (\<lambda>x. []) (Cell 0 ordinary [] [])
                 False False False f"
  have 1: "?ser 1 = [0xB5, 0xEE, 0x9C, 0x72, 9, 1, 1, 1, 0, 2, 0, 0, 0]"
    by (simp add: ser_defs Let_def)
  have 2: "?ser 2 = [0xB5, 0xEE, 0x9C, 0x72, 17, 1, 1, 1, 0, 2, 0, 0, 0]"
    by (simp add: ser_defs Let_def)
  have 3: "?ser 3 = [0xB5, 0xEE, 0x9C, 0x72, 25, 1, 1, 1, 0, 2, 0, 0, 0]"
    by (simp add: ser_defs Let_def)
  show ?thesis
    unfolding fst_serializeToBoc 1 2 3
    by (simp add: parse_defs Let_def)
qed

section \<open>Round trip: writing numbers and reading them back\<close>

lemma length_numberBytes [simp]: "length (numberBytes k n) = k"
  by (induction k) simp_all








section \<open>Round trip: bit strings\<close>









section \<open>Round trip: one cell record\<close>








section \<open>The bytes that the serializer writes\<close>












section \<open>Round trip: the header\<close>













section \<open>Round trip: records, links and the graph read off the store\<close>


















section \<open>Containers of more than \<open>2 ^ 32\<close> bytes\<close>
























end
